theory Spec2Isabelle
  imports Main "HOL-Library.Word"
begin

section \<open>Faults\<close>

text \<open>
  The tape throws \<open>std::out_of_range\<close> with the messages "Tape overflow" and
  "Tape underflow".  Three further faults are reads the C++ leaves undefined: a cell
  outside the two tape arrays (with the offending index), a source byte past the end of
  the input vector, and an instruction past the end of the bytecode vector (with the
  offending index).
\<close>

datatype fault =
    TapeOverflow
  | TapeUnderflow
  | CellOutOfRange nat
  | ReadPastEnd
  | FetchPastEnd nat

section \<open>The tape\<close>

text \<open>
  \<open>TwoEndedTape\<close>: two arrays of \<open>TAPE_SIZE\<close> unsigned chars and a \<open>size_t\<close>
  position that starts at \<open>TAPE_SIZE\<close>.  \<open>size_t\<close> is taken as 64 bits wide; an array
  is a function on the indices below \<open>TAPE_SIZE\<close>.  The head offset of the
  specification is \<open>position - TAPE_SIZE\<close>.
\<close>

definition TAPE_SIZE :: "64 word" where
  "TAPE_SIZE = 20000"

record TwoEndedTape =
  right :: "nat \<Rightarrow> 8 word"
  left :: "nat \<Rightarrow> 8 word"
  position :: "64 word"

definition new_tape :: TwoEndedTape where
  "new_tape = \<lparr>right = (\<lambda>_. 0), left = (\<lambda>_. 0), position = TAPE_SIZE\<rparr>"

definition moveRightBy :: "TwoEndedTape \<Rightarrow> 16 word \<Rightarrow> fault + TwoEndedTape" where
  "moveRightBy t n =
     (if position t < 2 * TAPE_SIZE - ucast n
      then Inr (t\<lparr>position := position t + ucast n\<rparr>)
      else Inl TapeOverflow)"

definition moveLeftBy :: "TwoEndedTape \<Rightarrow> 16 word \<Rightarrow> fault + TwoEndedTape" where
  "moveLeftBy t n =
     (if position t \<ge> ucast n
      then Inr (t\<lparr>position := position t - ucast n\<rparr>)
      else Inl TapeUnderflow)"

text \<open>
  \<open>add(int x)\<close> computes \<open>cell + x\<close> in \<open>int\<close> and stores it back into the unsigned
  char, that is modulo 256.  A position at or beyond \<open>2 * TAPE_SIZE\<close> indexes
  \<open>right\<close> past its end.
\<close>

definition add :: "TwoEndedTape \<Rightarrow> int \<Rightarrow> fault + TwoEndedTape" where
  "add t x =
     (if position t \<ge> TAPE_SIZE
      then (let k = unat (position t - TAPE_SIZE) in
            if k < unat TAPE_SIZE
            then Inr (t\<lparr>right := (right t)(k := word_of_int (uint (right t k) + x))\<rparr>)
            else Inl (CellOutOfRange k))
      else (let k = unat (TAPE_SIZE - 1 - position t) in
            Inr (t\<lparr>left := (left t)(k := word_of_int (uint (left t k) + x))\<rparr>)))"

definition set_curr :: "TwoEndedTape \<Rightarrow> 8 word \<Rightarrow> fault + TwoEndedTape" where
  "set_curr t v =
     (if position t \<ge> TAPE_SIZE
      then (let k = unat (position t - TAPE_SIZE) in
            if k < unat TAPE_SIZE
            then Inr (t\<lparr>right := (right t)(k := v)\<rparr>)
            else Inl (CellOutOfRange k))
      else (let k = unat (TAPE_SIZE - 1 - position t) in
            Inr (t\<lparr>left := (left t)(k := v)\<rparr>)))"

definition get_curr :: "TwoEndedTape \<Rightarrow> fault + 8 word" where
  "get_curr t =
     (if position t \<ge> TAPE_SIZE
      then (let k = unat (position t - TAPE_SIZE) in
            if k < unat TAPE_SIZE then Inr (right t k) else Inl (CellOutOfRange k))
      else Inr (left t (unat (TAPE_SIZE - 1 - position t))))"

section \<open>Instructions\<close>

datatype OpCode =
    OUTPUT
  | INPUT
  | JUMP_FWD
  | JUMP_BACK
  | SET_ZERO
  | ADD_VAL
  | MV_POS
  | ADD_TO_NEXT
  | MULTIPLY_MV
  | SET_VAL
  | SCAN_RIGHT
  | SCAN_LEFT

text \<open>
  \<open>enum class OpCode : uint16_t\<close> numbers its enumerators from 0 in the order of
  declaration.
\<close>

fun opcode_tag :: "OpCode \<Rightarrow> 16 word" where
  "opcode_tag OUTPUT = 0"
| "opcode_tag INPUT = 1"
| "opcode_tag JUMP_FWD = 2"
| "opcode_tag JUMP_BACK = 3"
| "opcode_tag SET_ZERO = 4"
| "opcode_tag ADD_VAL = 5"
| "opcode_tag MV_POS = 6"
| "opcode_tag ADD_TO_NEXT = 7"
| "opcode_tag MULTIPLY_MV = 8"
| "opcode_tag SET_VAL = 9"
| "opcode_tag SCAN_RIGHT = 10"
| "opcode_tag SCAN_LEFT = 11"

text \<open>
  \<open>struct Instruction\<close>.  The \<open>int32_t value\<close> is an \<open>int\<close>: the compiler stores a
  16-bit count, its negation, or a sum of one \<open>+1\<close> or \<open>-1\<close> per source byte, so it
  stays far inside 32 bits for any buffer shorter than \<open>2^31\<close> bytes.
\<close>

record Instruction =
  op :: OpCode
  jump_ref :: nat
  "value" :: int

section \<open>The compiler\<close>

text \<open>
  The input is a vector of unsigned chars, here a \<open>string\<close>.  Indices into it and
  into the bytecode are \<open>nat\<close>: a vector's size is bounded by the memory, so no
  index arithmetic of the compiler wraps.
\<close>

record PatternCheckResults =
  found :: bool
  val :: int
  len_of_pattern :: nat

definition not_found :: PatternCheckResults where
  "not_found = \<lparr>found = False, val = 0, len_of_pattern = 0\<rparr>"

definition is_set_zero_pattern :: "string \<Rightarrow> nat \<Rightarrow> bool" where
  "is_set_zero_pattern ops start =
     (if start + 2 \<ge> length ops then False
      else if ops ! start = CHR ''['' \<and>
              (ops ! (start + 1) = CHR ''-'' \<or> ops ! (start + 1) = CHR ''+'') \<and>
              ops ! (start + 2) = CHR '']''
      then True
      else False)"

definition is_scan_pattern :: "string \<Rightarrow> nat \<Rightarrow> PatternCheckResults" where
  "is_scan_pattern ops pos =
     (if pos + 2 \<ge> length ops then not_found
      else if ops ! pos \<noteq> CHR ''['' then not_found
      else (let direction = ops ! (pos + 1) in
        if direction \<noteq> CHR ''>'' \<and> direction \<noteq> CHR ''<'' then not_found
        else if ops ! (pos + 2) \<noteq> CHR '']'' then not_found
        else \<lparr>found = True, val = (if direction = CHR ''>'' then 1 else 0),
              len_of_pattern = 3\<rparr>))"

text \<open>
  \<open>is_add_to_next_pattern\<close> guards with \<open>pos + 4 >= ops.size()\<close> and then evaluates a
  chain of \<open>&&\<close> whose last operand reads \<open>ops[pos + 5]\<close>; the chain stops at the
  first operand that is false.
\<close>

definition is_add_to_next_pattern :: "string \<Rightarrow> nat \<Rightarrow> fault + bool" where
  "is_add_to_next_pattern ops pos =
     (if pos + 4 \<ge> length ops then Inr False
      else if ops ! pos = CHR ''['' \<and> ops ! (pos + 1) = CHR ''-'' \<and>
              ops ! (pos + 2) = CHR ''>'' \<and> ops ! (pos + 3) = CHR ''+'' \<and>
              ops ! (pos + 4) = CHR ''<''
      then (if pos + 5 < length ops then Inr (ops ! (pos + 5) = CHR '']'')
            else Inl ReadPastEnd)
      else Inr False)"

text \<open>
  The loop \<open>while (i < ops.size() && (ops[i] == '+' || ops[i] == '-'))\<close> of
  \<open>is_multiply_move_pattern\<close> and of \<open>is_set_value_pattern\<close>: it returns the sum
  and the index where it stopped.
\<close>

function plus_minus_loop :: "string \<Rightarrow> nat \<Rightarrow> int \<Rightarrow> int \<times> nat" where
  "plus_minus_loop ops k acc =
     (if k < length ops \<and> (ops ! k = CHR ''+'' \<or> ops ! k = CHR ''-'')
      then plus_minus_loop ops (k + 1) (acc + (if ops ! k = CHR ''+'' then 1 else - 1))
      else (acc, k))"
  by pat_completeness auto
termination
  by (relation "measure (\<lambda>(ops, k, acc). length ops - k)") auto

declare plus_minus_loop.simps [simp del]

definition is_multiply_move_pattern :: "string \<Rightarrow> nat \<Rightarrow> PatternCheckResults" where
  "is_multiply_move_pattern ops pos =
     (if pos + 4 \<ge> length ops \<or> ops ! pos \<noteq> CHR ''['' \<or> ops ! (pos + 1) \<noteq> CHR ''-'' \<or>
         ops ! (pos + 2) \<noteq> CHR ''>'' \<or>
         (ops ! (pos + 3) \<noteq> CHR ''+'' \<and> ops ! (pos + 3) \<noteq> CHR ''-'')
      then not_found
      else (case plus_minus_loop ops (pos + 3) 0 of (multiplier, k) \<Rightarrow>
        if k \<ge> length ops \<or> ops ! k \<noteq> CHR ''<'' \<or> k + 1 \<ge> length ops \<or>
           ops ! (k + 1) \<noteq> CHR '']''
        then not_found
        else \<lparr>found = True, val = multiplier, len_of_pattern = k + 2 - pos\<rparr>))"

definition is_set_value_pattern :: "string \<Rightarrow> nat \<Rightarrow> PatternCheckResults" where
  "is_set_value_pattern ops pos =
     (if pos + 2 \<ge> length ops then not_found
      else if ops ! pos \<noteq> CHR ''['' \<or> ops ! (pos + 1) \<noteq> CHR ''-'' \<or>
              ops ! (pos + 2) \<noteq> CHR '']''
      then not_found
      else (case plus_minus_loop ops (pos + 3) 0 of (v, k) \<Rightarrow>
        if v \<noteq> 0 then \<lparr>found = True, val = v, len_of_pattern = k - pos\<rparr>
        else not_found))"

function count_loop :: "string \<Rightarrow> nat \<Rightarrow> char \<Rightarrow> nat \<Rightarrow> nat" where
  "count_loop ops start target count =
     (if start + count < length ops \<and> ops ! (start + count) = target
      then count_loop ops start target (count + 1)
      else count)"
  by pat_completeness auto
termination
  by (relation "measure (\<lambda>(ops, start, target, count). length ops - (start + count))") auto

declare count_loop.simps [simp del]

definition count_repeated_chars :: "string \<Rightarrow> nat \<Rightarrow> char \<Rightarrow> nat" where
  "count_repeated_chars ops start target = count_loop ops start target 1"

text \<open>
  The locals of \<open>compile\<close>: the bytecode built so far, the stack of open
  \<open>JUMP_FWD\<close> indices (top first) and the index \<open>i\<close> into the input, here \<open>cursor\<close>.
  \<open>repeated_char_count\<close> is a \<open>uint16_t\<close> that each run handler assigns before it
  uses it.
\<close>

record cstate =
  bytecode :: "Instruction list"
  loop_stack :: "nat list"
  cursor :: nat

definition push_back :: "OpCode \<Rightarrow> nat \<Rightarrow> int \<Rightarrow> cstate \<Rightarrow> cstate" where
  "push_back oc j v st = st\<lparr>bytecode := bytecode st @ [\<lparr>op = oc, jump_ref = j, value = v\<rparr>]\<rparr>"

text \<open>
  \<open>NEXT_CHAR_N(n)\<close> is \<open>i += n; if (i < ops.size()) goto *dispatch_table[ops[i]];
  return bytecode;\<close>.  The addition is here, the test and the jump are in
  \<open>compile_loop\<close>.
\<close>

definition NEXT_CHAR_N :: "nat \<Rightarrow> cstate \<Rightarrow> cstate" where
  "NEXT_CHAR_N n st = st\<lparr>cursor := cursor st + n\<rparr>"

definition parse_mv_right :: "string \<Rightarrow> cstate \<Rightarrow> cstate" where
  "parse_mv_right ops st =
     (let repeated_char_count =
            (of_nat (count_repeated_chars ops (cursor st) CHR ''>'') :: 16 word)
      in NEXT_CHAR_N (unat repeated_char_count)
           (push_back MV_POS 0 (uint repeated_char_count) st))"

definition parse_mv_left :: "string \<Rightarrow> cstate \<Rightarrow> cstate" where
  "parse_mv_left ops st =
     (let repeated_char_count =
            (of_nat (count_repeated_chars ops (cursor st) CHR ''<'') :: 16 word)
      in NEXT_CHAR_N (unat repeated_char_count)
           (push_back MV_POS 0 (- uint repeated_char_count) st))"

definition parse_inc_val :: "string \<Rightarrow> cstate \<Rightarrow> cstate" where
  "parse_inc_val ops st =
     (let repeated_char_count =
            (of_nat (count_repeated_chars ops (cursor st) CHR ''+'') :: 16 word)
      in NEXT_CHAR_N (unat repeated_char_count)
           (push_back ADD_VAL 0 (uint repeated_char_count) st))"

definition parse_dec_val :: "string \<Rightarrow> cstate \<Rightarrow> cstate" where
  "parse_dec_val ops st =
     (let repeated_char_count =
            (of_nat (count_repeated_chars ops (cursor st) CHR ''-'') :: 16 word)
      in NEXT_CHAR_N (unat repeated_char_count)
           (push_back ADD_VAL 0 (- uint repeated_char_count) st))"

definition parse_output :: "cstate \<Rightarrow> cstate" where
  "parse_output st = NEXT_CHAR_N 1 (push_back OUTPUT 0 0 st)"

definition parse_input :: "cstate \<Rightarrow> cstate" where
  "parse_input st = NEXT_CHAR_N 1 (push_back INPUT 0 0 st)"

text \<open>
  \<open>parse_jmp_fwd\<close>.  The scan branch pushes its instruction and has no
  \<open>NEXT_CHAR_N\<close>: control goes on to the add-to-next test with the cursor where it
  was.
\<close>

definition parse_jmp_fwd :: "string \<Rightarrow> cstate \<Rightarrow> fault + cstate" where
  "parse_jmp_fwd ops st =
     (let pattern = is_set_value_pattern ops (cursor st) in
      if found pattern
      then Inr (NEXT_CHAR_N (len_of_pattern pattern) (push_back SET_VAL 0 (val pattern) st))
      else if is_set_zero_pattern ops (cursor st)
      then Inr (NEXT_CHAR_N 3 (push_back SET_ZERO 0 0 st))
      else
        (let pattern = is_scan_pattern ops (cursor st);
             st = (if found pattern
                   then (if val pattern \<noteq> 0 then push_back SCAN_RIGHT 0 0 st
                         else push_back SCAN_LEFT 0 0 st)
                   else st)
         in case is_add_to_next_pattern ops (cursor st) of
              Inl e \<Rightarrow> Inl e
            | Inr True \<Rightarrow> Inr (NEXT_CHAR_N 6 (push_back ADD_TO_NEXT 0 0 st))
            | Inr False \<Rightarrow>
                (let pattern = is_multiply_move_pattern ops (cursor st) in
                 if found pattern
                 then Inr (NEXT_CHAR_N (len_of_pattern pattern)
                            (push_back MULTIPLY_MV 0 (val pattern) st))
                 else Inr (NEXT_CHAR_N 1
                            (push_back JUMP_FWD 0 0
                              (st\<lparr>loop_stack := length (bytecode st) # loop_stack st\<rparr>))))))"

definition parse_jmp_back :: "cstate \<Rightarrow> cstate" where
  "parse_jmp_back st =
     NEXT_CHAR_N 1
       (if loop_stack st \<noteq> []
        then (let top = hd (loop_stack st);
                  bc = (bytecode st)[top := (bytecode st ! top)\<lparr>jump_ref := length (bytecode st)\<rparr>]
              in (push_back JUMP_BACK top 0 (st\<lparr>bytecode := bc\<rparr>))\<lparr>loop_stack := tl (loop_stack st)\<rparr>)
        else st)"

definition parse_unknown :: "cstate \<Rightarrow> cstate" where
  "parse_unknown st = NEXT_CHAR_N 1 st"

text \<open>\<open>goto *dispatch_table[ops[i]]\<close>, entered with \<open>i < ops.size()\<close>.\<close>

definition dispatch :: "string \<Rightarrow> cstate \<Rightarrow> fault + cstate" where
  "dispatch ops st =
     (let c = ops ! cursor st in
      if c = CHR ''>'' then Inr (parse_mv_right ops st)
      else if c = CHR ''<'' then Inr (parse_mv_left ops st)
      else if c = CHR ''+'' then Inr (parse_inc_val ops st)
      else if c = CHR ''-'' then Inr (parse_dec_val ops st)
      else if c = CHR ''.'' then Inr (parse_output st)
      else if c = CHR '','' then Inr (parse_input st)
      else if c = CHR ''['' then parse_jmp_fwd ops st
      else if c = CHR '']'' then Inr (parse_jmp_back st)
      else Inr (parse_unknown st))"

text \<open>
  One handler after the other until the cursor leaves the input.  The loop need not
  end: \<open>None\<close> is a run that never returns.
\<close>

partial_function (option) compile_loop :: "string \<Rightarrow> cstate \<Rightarrow> (fault + Instruction list) option" where
  "compile_loop ops st =
     (case dispatch ops st of
        Inl e \<Rightarrow> Some (Inl e)
      | Inr st' \<Rightarrow>
          if cursor st' < length ops then compile_loop ops st'
          else Some (Inr (bytecode st')))"

declare compile_loop.simps [code]

definition compile :: "string \<Rightarrow> (fault + Instruction list) option" where
  "compile ops =
     (if ops = [] then Some (Inr [])
      else compile_loop ops \<lparr>bytecode = [], loop_stack = [], cursor = 0\<rparr>)"

section \<open>The interpreter\<close>

text \<open>
  The interpreter owns one tape; standard input is the list of bytes still to be read,
  standard output the list of bytes written so far.
\<close>

record istate =
  tape :: TwoEndedTape
  pc :: nat
  "input" :: "8 word list"
  "output" :: "8 word list"

definition then_do :: "fault + 'a \<Rightarrow> ('a \<Rightarrow> fault + 'b) \<Rightarrow> fault + 'b" where
  "then_do m f = (case m of Inl e \<Rightarrow> Inl e | Inr x \<Rightarrow> f x)"

definition on_tape :: "(TwoEndedTape \<Rightarrow> fault + TwoEndedTape) \<Rightarrow> istate \<Rightarrow> fault + istate" where
  "on_tape f s = then_do (f (tape s)) (\<lambda>t. Inr (s\<lparr>tape := t\<rparr>))"

text \<open>\<open>bytecode[pc]\<close>: a read past the end of the vector is a fault.\<close>

definition fetch :: "Instruction list \<Rightarrow> nat \<Rightarrow> fault + Instruction" where
  "fetch bc k = (if k < length bc then Inr (bc ! k) else Inl (FetchPastEnd k))"

text \<open>
  The handlers, one per label.  \<open>DISPATCH\<close> has read \<open>bytecode[pc]\<close> before a handler
  runs and no handler changes \<open>pc\<close> before its own reads of \<open>bytecode[pc]\<close>, so a
  handler gets that instruction as \<open>instr\<close>.
\<close>

definition do_output :: "istate \<Rightarrow> fault + istate" where
  "do_output s = then_do (get_curr (tape s)) (\<lambda>c. Inr (s\<lparr>output := output s @ [c]\<rparr>))"

text \<open>
  \<open>std::cin.get()\<close> returns the next byte as an \<open>int\<close>, or \<open>-1\<close> at the end of the
  input; \<open>set_curr\<close> takes it as an unsigned char.
\<close>

definition do_input :: "istate \<Rightarrow> fault + istate" where
  "do_input s =
     (case input s of
        [] \<Rightarrow> on_tape (\<lambda>t. set_curr t (word_of_int (- 1))) s
      | b # bs \<Rightarrow> on_tape (\<lambda>t. set_curr t (word_of_int (uint b))) (s\<lparr>input := bs\<rparr>))"

definition do_jmp_fwd :: "Instruction \<Rightarrow> istate \<Rightarrow> fault + istate" where
  "do_jmp_fwd instr s =
     then_do (get_curr (tape s)) (\<lambda>c. Inr (if c = 0 then s\<lparr>pc := jump_ref instr\<rparr> else s))"

definition do_jmp_back :: "Instruction \<Rightarrow> istate \<Rightarrow> fault + istate" where
  "do_jmp_back instr s =
     then_do (get_curr (tape s)) (\<lambda>c. Inr (if c \<noteq> 0 then s\<lparr>pc := jump_ref instr\<rparr> else s))"

definition do_set_zero :: "TwoEndedTape \<Rightarrow> fault + TwoEndedTape" where
  "do_set_zero t = set_curr t 0"

definition do_add_val :: "Instruction \<Rightarrow> TwoEndedTape \<Rightarrow> fault + TwoEndedTape" where
  "do_add_val instr t = add t (value instr)"

text \<open>The \<open>int32_t\<close> operand is passed to a \<open>uint16_t\<close> parameter.\<close>

definition do_mv_pos :: "Instruction \<Rightarrow> TwoEndedTape \<Rightarrow> fault + TwoEndedTape" where
  "do_mv_pos instr t =
     (if value instr \<ge> 0 then moveRightBy t (word_of_int (value instr))
      else moveLeftBy t (word_of_int (- value instr)))"

definition do_add_to_next :: "TwoEndedTape \<Rightarrow> fault + TwoEndedTape" where
  "do_add_to_next t =
     then_do (get_curr t) (\<lambda>c.
       let tmp = (ucast c :: 16 word) in
       then_do (set_curr t 0) (\<lambda>t.
       then_do (moveRightBy t 1) (\<lambda>t.
       then_do (add t (uint tmp)) (\<lambda>t.
       moveLeftBy t 1))))"

text \<open>
  \<open>tmp * bytecode[pc].value\<close> is a product of a \<open>uint32_t\<close> and an \<open>int32_t\<close>: it is
  computed in 32 bits unsigned and handed to \<open>add\<close> as an \<open>int\<close>.
\<close>

definition do_multiply_mv :: "Instruction \<Rightarrow> TwoEndedTape \<Rightarrow> fault + TwoEndedTape" where
  "do_multiply_mv instr t =
     then_do (get_curr t) (\<lambda>c.
       let tmp = (ucast c :: 32 word) in
       then_do (set_curr t 0) (\<lambda>t.
       then_do (moveRightBy t 1) (\<lambda>t.
       then_do (add t (sint (tmp * word_of_int (value instr)))) (\<lambda>t.
       moveLeftBy t 1))))"

definition do_set_val :: "Instruction \<Rightarrow> TwoEndedTape \<Rightarrow> fault + TwoEndedTape" where
  "do_set_val instr t = set_curr t (word_of_int (value instr))"

function do_scan_right :: "TwoEndedTape \<Rightarrow> fault + TwoEndedTape" where
  "do_scan_right t =
     (case get_curr t of
        Inl e \<Rightarrow> Inl e
      | Inr c \<Rightarrow>
          if c \<noteq> 0
          then (case moveRightBy t 1 of Inl e \<Rightarrow> Inl e | Inr t' \<Rightarrow> do_scan_right t')
          else Inr t)"
  by pat_completeness auto
termination
proof (relation "measure (\<lambda>t. 40000 - unat (position t))")
  show "wf (measure (\<lambda>t. 40000 - unat (position t)))"
    by simp
next
  fix t :: TwoEndedTape and c t'
  assume "moveRightBy t 1 = Inr t'"
  then have lt: "position t < 39999" and eq: "position t' = position t + 1"
    by (auto simp: moveRightBy_def TAPE_SIZE_def split: if_splits)
  from lt have n: "unat (position t) < 39999"
    by (simp add: word_less_nat_alt)
  then have "unat (position t) + unat (1 :: 64 word) < 2 ^ LENGTH(64)"
    by simp
  then have "unat (position t + 1) = unat (position t) + unat (1 :: 64 word)"
    by (simp only: unat_add_lem)
  with n eq have "40000 - unat (position t') < 40000 - unat (position t)"
    by simp
  then show "(t', t) \<in> measure (\<lambda>t. 40000 - unat (position t))"
    by simp
qed

declare do_scan_right.simps [simp del]

function do_scan_left :: "TwoEndedTape \<Rightarrow> fault + TwoEndedTape" where
  "do_scan_left t =
     (case get_curr t of
        Inl e \<Rightarrow> Inl e
      | Inr c \<Rightarrow>
          if c \<noteq> 0
          then (case moveLeftBy t 1 of Inl e \<Rightarrow> Inl e | Inr t' \<Rightarrow> do_scan_left t')
          else Inr t)"
  by pat_completeness auto
termination
proof (relation "measure (\<lambda>t. unat (position t))")
  show "wf (measure (\<lambda>t. unat (position t)))"
    by simp
next
  fix t :: TwoEndedTape and c t'
  assume "moveLeftBy t 1 = Inr t'"
  then have ge: "1 \<le> position t" and eq: "position t' = position t - 1"
    by (auto simp: moveLeftBy_def split: if_splits)
  from ge have "unat (position t - 1) = unat (position t) - unat (1 :: 64 word)"
    by (rule unat_sub)
  moreover from ge have "1 \<le> unat (position t)"
    by (simp add: word_le_nat_alt)
  ultimately have "unat (position t') < unat (position t)"
    using eq by simp
  then show "(t', t) \<in> measure (\<lambda>t. unat (position t))"
    by simp
qed

declare do_scan_left.simps [simp del]

text \<open>\<open>goto *dispatch_table[static_cast<int>(bytecode[pc].op)]\<close>: the handler of an opcode.\<close>

definition handler :: "Instruction \<Rightarrow> istate \<Rightarrow> fault + istate" where
  "handler instr s =
     (case op instr of
        OUTPUT \<Rightarrow> do_output s
      | INPUT \<Rightarrow> do_input s
      | JUMP_FWD \<Rightarrow> do_jmp_fwd instr s
      | JUMP_BACK \<Rightarrow> do_jmp_back instr s
      | SET_ZERO \<Rightarrow> on_tape do_set_zero s
      | ADD_VAL \<Rightarrow> on_tape (do_add_val instr) s
      | MV_POS \<Rightarrow> on_tape (do_mv_pos instr) s
      | ADD_TO_NEXT \<Rightarrow> on_tape do_add_to_next s
      | MULTIPLY_MV \<Rightarrow> on_tape (do_multiply_mv instr) s
      | SET_VAL \<Rightarrow> on_tape (do_set_val instr) s
      | SCAN_RIGHT \<Rightarrow> on_tape do_scan_right s
      | SCAN_LEFT \<Rightarrow> on_tape do_scan_left s)"

text \<open>
  One round of the threaded loop: \<open>DISPATCH\<close> reads \<open>bytecode[pc]\<close> and jumps to its
  handler, the handler runs, and \<open>NEXT\<close> is
  \<open>if (++pc < bytecode.size()) DISPATCH; return;\<close>.
\<close>

datatype control = Dispatch istate | Return istate

definition NEXT :: "Instruction list \<Rightarrow> istate \<Rightarrow> control" where
  "NEXT bc s =
     (let s' = s\<lparr>pc := pc s + 1\<rparr> in
      if pc s' < length bc then Dispatch s' else Return s')"

definition interp_step :: "Instruction list \<Rightarrow> istate \<Rightarrow> fault + control" where
  "interp_step bc s =
     then_do (fetch bc (pc s)) (\<lambda>instr.
     then_do (handler instr s) (\<lambda>s'. Inr (NEXT bc s')))"

text \<open>
  The loop itself.  A Brainfuck program may run forever: \<open>None\<close> is a run that never
  returns.
\<close>

partial_function (option) interp_loop :: "Instruction list \<Rightarrow> istate \<Rightarrow> (fault + istate) option" where
  "interp_loop bc s =
     (case interp_step bc s of
        Inl e \<Rightarrow> Some (Inl e)
      | Inr (Return s') \<Rightarrow> Some (Inr s')
      | Inr (Dispatch s') \<Rightarrow> interp_loop bc s')"

declare interp_loop.simps [code]

definition initial :: "8 word list \<Rightarrow> istate" where
  "initial inp = \<lparr>tape = new_tape, pc = 0, input = inp, output = []\<rparr>"

definition interprete :: "Instruction list \<Rightarrow> 8 word list \<Rightarrow> (fault + istate) option" where
  "interprete bc inp =
     (if bc = [] then Some (Inr (initial inp))
      else interp_loop bc (initial inp))"

text \<open>
  The first \<open>n\<close> rounds of the same loop, for statements about every state a run
  goes through, whether the run ends or not.
\<close>

fun rounds :: "nat \<Rightarrow> Instruction list \<Rightarrow> istate \<Rightarrow> fault + control" where
  "rounds 0 bc s = Inr (Dispatch s)"
| "rounds (Suc n) bc s =
     (case interp_step bc s of
        Inl e \<Rightarrow> Inl e
      | Inr (Return s') \<Rightarrow> Inr (Return s')
      | Inr (Dispatch s') \<Rightarrow> rounds n bc s')"

section \<open>The program\<close>

text \<open>\<open>putchar\<close> writes its argument converted to an unsigned char.\<close>

definition print_bytecode :: "Instruction list \<Rightarrow> 8 word list" where
  "print_bytecode bc = map (\<lambda>instr. ucast (opcode_tag (op instr))) bc"

text \<open>
  \<open>main\<close> after the options are parsed and the program is read: \<open>ops\<close> is the program,
  \<open>should_print_bytecode\<close> is set by \<open>-c\<close>.  The result is what is written to standard
  output.
\<close>

definition main :: "bool \<Rightarrow> string \<Rightarrow> 8 word list \<Rightarrow> (fault + 8 word list) option" where
  "main should_print_bytecode ops inp =
     (case compile ops of
        None \<Rightarrow> None
      | Some (Inl e) \<Rightarrow> Some (Inl e)
      | Some (Inr bc) \<Rightarrow>
          if should_print_bytecode then Some (Inr (print_bytecode bc))
          else (case interprete bc inp of
                  None \<Rightarrow> None
                | Some (Inl e) \<Rightarrow> Some (Inl e)
                | Some (Inr s) \<Rightarrow> Some (Inr (output s))))"

section \<open>The tape as the specification sees it\<close>

text \<open>
  Cells indexed by signed offsets in \<open>[-C, C-1]\<close> with \<open>C = 20000\<close>, and the head
  offset.  Offset \<open>k \<ge> 0\<close> is \<open>right[k]\<close>, offset \<open>k < 0\<close> is \<open>left[-k-1]\<close>.
\<close>

definition head :: "TwoEndedTape \<Rightarrow> int" where
  "head t = uint (position t) - 20000"

definition cell :: "TwoEndedTape \<Rightarrow> int \<Rightarrow> 8 word" where
  "cell t k = (if k \<ge> 0 then right t (nat k) else left t (nat (- k - 1)))"

section \<open>Command characters and the rest of a run\<close>



text \<open>The same state with the cursor \<open>n\<close> characters further on.\<close>

definition shift :: "nat \<Rightarrow> cstate \<Rightarrow> cstate" where
  "shift n st = st\<lparr>cursor := cursor st + n\<rparr>"

text \<open>
  The characters at which every look-ahead of the compiler stops without a match: all
  but \<open>> < + - ]\<close>.  Two buffers agree before \<open>p\<close> when they are equal up to \<open>p\<close> and
  each has such a character at \<open>p\<close>.
\<close>

definition blocker :: "char \<Rightarrow> bool" where
  "blocker c = (c \<notin> set ''><+-]'')"


section \<open>Kinds of fault\<close>

text \<open>The faults of the tape, as opposed to reads past the end of a vector.\<close>

definition tape_fault :: "fault \<Rightarrow> bool" where
  "tape_fault e = (case e of FetchPastEnd k \<Rightarrow> False | ReadPastEnd \<Rightarrow> False | _ \<Rightarrow> True)"

section \<open>Linked jumps\<close>

text \<open>
  The brackets of the source.  \<open>depth s d\<close> reads \<open>s\<close> with \<open>d\<close> brackets open and gives
  the number still open at its end, or \<open>None\<close> when a \<open>]\<close> comes with none open.  A \<open>[\<close>
  at \<open>i\<close> and a \<open>]\<close> at \<open>j\<close> match when the text between them leaves no bracket open
  and closes none but its own.
\<close>

fun depth :: "string \<Rightarrow> nat \<Rightarrow> nat option" where
  "depth [] d = Some d"
| "depth (c # cs) d =
     (if c = CHR ''['' then depth cs (Suc d)
      else if c = CHR '']'' then (case d of 0 \<Rightarrow> None | Suc e \<Rightarrow> depth cs e)
      else depth cs d)"

definition between :: "string \<Rightarrow> nat \<Rightarrow> nat \<Rightarrow> string" where
  "between ops i j = take (j - Suc i) (drop (Suc i) ops)"

definition matched :: "string \<Rightarrow> nat \<Rightarrow> nat \<Rightarrow> bool" where
  "matched ops i j =
     (i < j \<and> j < length ops \<and> ops ! i = CHR ''['' \<and> ops ! j = CHR '']'' \<and>
      depth (between ops i j) 0 = Some 0)"

text \<open>
  The positions of the \<open>[\<close> that are open after the first \<open>n\<close> characters, the innermost
  first; a \<open>]\<close> with none open closes nothing.
\<close>

fun open_brackets :: "string \<Rightarrow> nat \<Rightarrow> nat list" where
  "open_brackets ops 0 = []"
| "open_brackets ops (Suc n) =
     (if ops ! n = CHR ''['' then n # open_brackets ops n
      else if ops ! n = CHR '']'' then tl (open_brackets ops n)
      else open_brackets ops n)"

text \<open>
  Where the instructions come from: the loop of \<open>compile\<close> once more, noting for every
  instruction a handler appends the position the cursor had when that handler was
  entered.  The handlers are those of the compiler (\<open>dispatch\<close>); the list runs parallel
  to the bytecode.
\<close>

partial_function (option) sites_loop :: "string \<Rightarrow> cstate \<Rightarrow> nat list \<Rightarrow> (fault + nat list) option" where
  "sites_loop ops st src =
     (case dispatch ops st of
        Inl e \<Rightarrow> Some (Inl e)
      | Inr st' \<Rightarrow>
          if cursor st' < length ops
          then sites_loop ops st'
                 (src @ replicate (length (bytecode st') - length (bytecode st)) (cursor st))
          else Some (Inr (src @ replicate (length (bytecode st') - length (bytecode st)) (cursor st))))"

declare sites_loop.simps [code]

definition sites :: "string \<Rightarrow> (fault + nat list) option" where
  "sites ops =
     (if ops = [] then Some (Inr [])
      else sites_loop ops \<lparr>bytecode = [], loop_stack = [], cursor = 0\<rparr> [])"

text \<open>
  The invariant of the compiler's loop: the stack holds distinct indices of
  \<open>JumpForward\<close>s that still carry the placeholder, every \<open>JumpBackward\<close> is linked
  with a \<open>JumpForward\<close> that has left the stack, and every \<open>JumpForward\<close> that has
  left the stack is linked with a \<open>JumpBackward\<close>.
\<close>

definition links_ok :: "cstate \<Rightarrow> bool" where
  "links_ok st =
     (let bc = bytecode st; stk = loop_stack st in
      distinct stk \<and>
      (\<forall>t \<in> set stk. t < length bc \<and> op (bc ! t) = JUMP_FWD \<and> jump_ref (bc ! t) = 0) \<and>
      (\<forall>j < length bc.
         (op (bc ! j) = JUMP_BACK \<longrightarrow>
            jump_ref (bc ! j) < j \<and> jump_ref (bc ! j) \<notin> set stk \<and>
            op (bc ! jump_ref (bc ! j)) = JUMP_FWD \<and>
            jump_ref (bc ! jump_ref (bc ! j)) = j) \<and>
         (op (bc ! j) = JUMP_FWD \<and> j \<notin> set stk \<longrightarrow>
            j < jump_ref (bc ! j) \<and> jump_ref (bc ! j) < length bc \<and>
            op (bc ! jump_ref (bc ! j)) = JUMP_BACK \<and>
            jump_ref (bc ! jump_ref (bc ! j)) = j)))"

text \<open>
  The same loop seen from the source, with \<open>src\<close> the positions noted so far: the stack
  holds the instructions of the \<open>[\<close> that are open at the cursor, innermost first;
  a \<open>JumpForward\<close> comes from a \<open>[\<close> before the cursor, later ones from later
  positions; a \<open>JumpBackward\<close> comes from a \<open>]\<close> and its target from the innermost \<open>[\<close>
  open there.
\<close>

definition sites_ok :: "string \<Rightarrow> cstate \<Rightarrow> nat list \<Rightarrow> bool" where
  "sites_ok ops st src =
     (let bc = bytecode st in
      length src = length bc \<and>
      map ((!) src) (loop_stack st) = open_brackets ops (cursor st) \<and>
      (\<forall>a < length bc. op (bc ! a) = JUMP_FWD \<longrightarrow>
         src ! a < cursor st \<and> ops ! (src ! a) = CHR ''['') \<and>
      (\<forall>b < length bc. \<forall>a < b. op (bc ! a) = JUMP_FWD \<and> op (bc ! b) = JUMP_FWD \<longrightarrow>
         src ! a < src ! b) \<and>
      (\<forall>b < length bc. op (bc ! b) = JUMP_BACK \<longrightarrow>
         src ! b < length ops \<and> ops ! (src ! b) = CHR '']'' \<and>
         open_brackets ops (src ! b) \<noteq> [] \<and>
         hd (open_brackets ops (src ! b)) = src ! jump_ref (bc ! b)))"

section \<open>Properties of the tape\<close>

subsection \<open>Cells and head offset\<close>

lemma head_unat: "head t = int (unat (position t)) - 20000"
  by (simp add: head_def)

lemma head_nonneg_iff: "(20000 :: 64 word) \<le> position t \<longleftrightarrow> 0 \<le> head t"
proof -
  have "(20000 :: 64 word) \<le> position t \<longleftrightarrow> uint (20000 :: 64 word) \<le> uint (position t)"
    by (rule word_le_def)
  then show ?thesis by (simp add: head_def)
qed

lemma right_index:
  assumes "(20000 :: 64 word) \<le> position t"
  shows "unat (position t - 20000) = nat (head t)"
proof -
  define n where "n = unat (position t)"
  from assms have "unat (position t - 20000) = unat (position t) - unat (20000 :: 64 word)"
    by (rule unat_sub)
  then have "unat (position t - 20000) = n - 20000"
    by (simp add: n_def)
  moreover have "head t = int n - 20000"
    unfolding n_def by (rule head_unat)
  ultimately show ?thesis
    by simp
qed

lemma left_index:
  assumes "\<not> (20000 :: 64 word) \<le> position t"
  shows "unat (20000 - 1 - position t) = nat (- head t - 1)"
proof -
  define n where "n = unat (position t)"
  from assms have "unat (position t) < unat (20000 :: 64 word)"
    by (simp only: word_le_nat_alt not_le)
  then have lt: "n < 20000"
    by (simp add: n_def)
  then have "unat (position t) \<le> unat (19999 :: 64 word)"
    by (simp add: n_def)
  then have "position t \<le> 19999"
    by (simp only: word_le_nat_alt)
  then have "unat (19999 - position t) = unat (19999 :: 64 word) - unat (position t)"
    by (rule unat_sub)
  then have "unat (20000 - 1 - position t) = 19999 - n"
    by (simp add: n_def)
  moreover have "head t = int n - 20000"
    unfolding n_def by (rule head_unat)
  ultimately show ?thesis
    using lt by simp
qed

lemma get_curr_cell:
  assumes "head t < 20000"
  shows "get_curr t = Inr (cell t (head t))"
proof (cases "(20000 :: 64 word) \<le> position t")
  case True
  moreover from True have "0 \<le> head t" using head_nonneg_iff by blast
  moreover from assms have "nat (head t) < 20000" by simp
  ultimately show ?thesis
    by (simp add: get_curr_def TAPE_SIZE_def right_index cell_def)
next
  case False
  moreover from False have "\<not> 0 \<le> head t" using head_nonneg_iff by blast
  ultimately show ?thesis
    using left_index [OF False] 
    by (simp add: get_curr_def TAPE_SIZE_def cell_def)
qed

lemma cell_right_upd:
  "0 \<le> h \<Longrightarrow> cell (t\<lparr>right := (right t)(nat h := v)\<rparr>) k = (if k = h then v else cell t k)"
  by (auto simp: cell_def)

lemma cell_left_upd:
  "h < 0 \<Longrightarrow> cell (t\<lparr>left := (left t)(nat (- h - 1) := v)\<rparr>) k = (if k = h then v else cell t k)"
  by (auto simp: cell_def)

lemma set_curr_cell:
  assumes "head t < 20000"
  shows "\<exists>t'. set_curr t v = Inr t' \<and> position t' = position t \<and>
           (\<forall>k. cell t' k = (if k = head t then v else cell t k))"
proof (cases "(20000 :: 64 word) \<le> position t")
  case True
  moreover from True have h: "0 \<le> head t" using head_nonneg_iff by blast
  moreover from assms have "nat (head t) < 20000" by simp
  ultimately have "set_curr t v = Inr (t\<lparr>right := (right t)(nat (head t) := v)\<rparr>)"
    by (simp add: set_curr_def TAPE_SIZE_def right_index Let_def)
  with h show ?thesis
    by (simp add: cell_right_upd)
next
  case False
  moreover from False have h: "head t < 0" using head_nonneg_iff [of t] by simp
  ultimately have "set_curr t v = Inr (t\<lparr>left := (left t)(nat (- head t - 1) := v)\<rparr>)"
    using left_index [OF False] by (simp add: set_curr_def TAPE_SIZE_def Let_def)
  with h show ?thesis
    by (simp add: cell_left_upd)
qed

lemma add_cell:
  assumes "head t < 20000"
  shows "\<exists>t'. add t x = Inr t' \<and> position t' = position t \<and>
           (\<forall>k. cell t' k = (if k = head t then cell t (head t) + word_of_int x else cell t k))"
proof (cases "(20000 :: 64 word) \<le> position t")
  case True
  moreover from True have h: "0 \<le> head t" using head_nonneg_iff by blast
  moreover from assms have "nat (head t) < 20000" by simp
  ultimately have "add t x = Inr (t\<lparr>right := (right t)(nat (head t) := cell t (head t) + word_of_int x)\<rparr>)"
    by (simp add: add_def TAPE_SIZE_def right_index cell_def Let_def)
  with h show ?thesis
    by (simp add: cell_right_upd)
next
  case False
  moreover from False have h: "head t < 0" using head_nonneg_iff [of t] by simp
  ultimately have "add t x = Inr (t\<lparr>left := (left t)(nat (- head t - 1) := cell t (head t) + word_of_int x)\<rparr>)"
    using left_index [OF False] by (simp add: add_def TAPE_SIZE_def cell_def Let_def)
  with h show ?thesis
    by (simp add: cell_left_upd)
qed

subsection \<open>Head motion\<close>

text \<open>
  \<open>moveLeftBy\<close> checks its bound for every \<open>n\<close>.  \<open>moveRightBy\<close> checks it for
  \<open>n \<le> 2 * TAPE_SIZE\<close>; for a larger \<open>n\<close> the unsigned difference
  \<open>2 * TAPE_SIZE - n\<close> wraps around and the move is made.
\<close>

lemma uint_ucast_16_64: "uint (ucast (n :: 16 word) :: 64 word) = uint n"
  by (simp add: uint_up_ucast is_up)

lemma uint_16_bound: "uint (n :: 16 word) < 65536"
  using uint_bounded [of n] by simp

lemma moveLeftBy_head:
  "moveLeftBy t n =
     (if - 20000 \<le> head t - uint n then Inr (t\<lparr>position := position t - ucast n\<rparr>)
      else Inl TapeUnderflow)"
proof -
  have "(ucast n :: 64 word) \<le> position t \<longleftrightarrow> uint (ucast n :: 64 word) \<le> uint (position t)"
    by (rule word_le_def)
  then have "(ucast n :: 64 word) \<le> position t \<longleftrightarrow> - 20000 \<le> head t - uint n"
    by (simp add: uint_ucast_16_64 head_def) 
  then show ?thesis
    by (simp add: moveLeftBy_def)
qed

lemma moveLeftBy_head_result:
  assumes "- 20000 \<le> head t - uint (n :: 16 word)"
  shows "head (t\<lparr>position := position t - ucast n\<rparr>) = head t - uint n"
proof -
  from assms have "uint (ucast n :: 64 word) \<le> uint (position t)"
    by (simp add: uint_ucast_16_64 head_def)
  then have "uint (position t - ucast n) = uint (position t) - uint (ucast n :: 64 word)"
    by (simp only: uint_sub_lem)
  then show ?thesis
    by (simp add: head_def uint_ucast_16_64)
qed

lemma moveRightBy_head:
  assumes "uint n \<le> 40000" 
  shows "moveRightBy t n =
     (if head t + uint n \<le> 19999 then Inr (t\<lparr>position := position t + ucast n\<rparr>)
      else Inl TapeOverflow)"
proof -
  have "uint (ucast n :: 64 word) \<le> uint (40000 :: 64 word)"
    using assms by (simp add: uint_ucast_16_64)
  then have "uint (40000 - ucast n :: 64 word) = uint (40000 :: 64 word) - uint (ucast n :: 64 word)"
    by (simp only: uint_sub_lem)
  then have b: "uint (40000 - ucast n :: 64 word) = 40000 - uint n"
    by (simp add: uint_ucast_16_64)
  have "position t < 40000 - ucast n \<longleftrightarrow> uint (position t) < uint (40000 - ucast n :: 64 word)"
    by (rule word_less_def)
  also have "\<dots> \<longleftrightarrow> head t + uint n \<le> 19999"
    unfolding b head_def by linarith
  finally show ?thesis
    by (simp add: moveRightBy_def TAPE_SIZE_def)
qed

lemma moveRightBy_head_result:
  assumes "head t + uint (n :: 16 word) \<le> 19999"
  shows "head (t\<lparr>position := position t + ucast n\<rparr>) = head t + uint n"
proof -
  from assms have "uint (position t) + uint (ucast n :: 64 word) < 2 ^ LENGTH(64)"
    by (simp add: uint_ucast_16_64 head_def)
  then have "uint (position t + ucast n) = uint (position t) + uint (ucast n :: 64 word)"
    by (simp only: uint_add_lem)
  then show ?thesis
    by (simp add: head_def uint_ucast_16_64)
qed

lemma moveRightBy_wrapped:
  assumes "40000 < uint n" "head t < 20000"
  shows "moveRightBy t n = Inr (t\<lparr>position := position t + ucast n\<rparr>)"
    and "head (t\<lparr>position := position t + ucast n\<rparr>) = head t + uint n"
proof -
  have ub: "uint n < 65536" by (rule uint_16_bound)
  have hb: "0 \<le> uint (position t)" by simp
  have "uint (40000 - ucast n :: 64 word) = (uint (40000 :: 64 word) - uint (ucast n :: 64 word)) mod 2 ^ LENGTH(64)"
    by (rule uint_word_ariths)
  also have "\<dots> = (40000 - uint n) mod 18446744073709551616"
    by (simp add: uint_ucast_16_64)
  also have "\<dots> = (40000 - uint n + 18446744073709551616) mod 18446744073709551616"
    by (simp only: mod_add_self2)
  also have "\<dots> = 18446744073709551616 + (40000 - uint n)"
    using assms(1) ub by (simp add: mod_pos_pos_trivial)
  finally have b: "uint (40000 - ucast n :: 64 word) = 18446744073709551616 + (40000 - uint n)" .
  have "position t < 40000 - ucast n \<longleftrightarrow> uint (position t) < uint (40000 - ucast n :: 64 word)"
    by (rule word_less_def)
  also have "\<dots>"
    unfolding b using assms(2) ub by (simp add: head_def)
  finally show "moveRightBy t n = Inr (t\<lparr>position := position t + ucast n\<rparr>)"
    by (simp add: moveRightBy_def TAPE_SIZE_def)
  from assms(2) ub have "uint (position t) + uint (ucast n :: 64 word) < 2 ^ LENGTH(64)"
    by (simp add: uint_ucast_16_64 head_def)
  then have "uint (position t + ucast n) = uint (position t) + uint (ucast n :: 64 word)"
    by (simp only: uint_add_lem)
  then show "head (t\<lparr>position := position t + ucast n\<rparr>) = head t + uint n"
    by (simp add: head_def uint_ucast_16_64)
qed

text \<open>
  C5.  For a head offset \<open>p\<close> in \<open>[-C, C-1]\<close> and \<open>n \<ge> 1\<close>, move right by \<open>n\<close> is to
  succeed exactly when \<open>p + n \<le> C-1\<close> and to fail with a tape overflow otherwise.  On
  the fresh tape (\<open>p = 0\<close>) and \<open>n = 40001\<close> the code moves the head to offset 40001,
  beyond the last cell \<open>C-1 = 19999\<close>, and reports no overflow.
\<close>

theorem moveRightBy_beyond_last_cell:
  "head new_tape = 0 \<and>
   moveRightBy new_tape 40001 = Inr (new_tape\<lparr>position := 60001\<rparr>) \<and>
   head (new_tape\<lparr>position := 60001\<rparr>) = 40001"
  by (simp add: moveRightBy_def new_tape_def TAPE_SIZE_def head_def)

section \<open>Properties of the superinstructions\<close>

lemma sint_ucast_8_32: "sint (ucast (c :: 8 word) :: 32 word) = uint c"
proof -
  have "uint c < 2 ^ 8" using uint_bounded [of c] by simp
  then have b: "uint c < 2 ^ 31" by simp
  have "uint (ucast c :: 32 word) = uint c"
    by (simp add: uint_up_ucast is_up)
  moreover have "sint (ucast c :: 32 word) = signed_take_bit (LENGTH(32) - Suc 0) (uint (ucast c :: 32 word))"
    by (rule sint_uint)
  ultimately have "sint (ucast c :: 32 word) = signed_take_bit 31 (uint c)"
    by simp
  also have "\<dots> = uint c"
  proof (rule signed_take_bit_int_eq_self)
    have "- (2 ^ 31) \<le> (0 :: int)" by simp
    also have "0 \<le> uint c" by simp
    finally show "- (2 ^ 31) \<le> uint c" .
    show "uint c < 2 ^ 31" by (rule b)
  qed
  finally show ?thesis .
qed

lemma uint_ucast_8_16: "uint (ucast (c :: 8 word) :: 16 word) = uint c"
  by (simp add: uint_up_ucast is_up)

lemma cell_position_upd [simp]: "cell (t\<lparr>position := p\<rparr>) k = cell t k"
  by (simp add: cell_def)

lemma add_to_next_is_multiply_one:
  "do_add_to_next t = do_multiply_mv \<lparr>op = MULTIPLY_MV, jump_ref = j, value = 1\<rparr> t"
  by (simp add: do_add_to_next_def do_multiply_mv_def sint_ucast_8_32 uint_ucast_8_16)

lemma set_zero_is_set_val_zero:
  "do_set_zero t = do_set_val \<lparr>op = SET_VAL, jump_ref = j, value = 0\<rparr> t"
  by (simp add: do_set_zero_def do_set_val_def)

lemma do_add_to_next_effect:
  assumes "head t < 19999"
  shows "\<exists>t'. do_add_to_next t = Inr t' \<and> position t' = position t \<and>
           (\<forall>k. cell t' k =
              (if k = head t then 0
               else if k = head t + 1 then cell t (head t + 1) + cell t (head t)
               else cell t k))"
proof -
  from assms have h: "head t < 20000" by simp
  have g: "get_curr t = Inr (cell t (head t))"
    using h by (rule get_curr_cell)
  obtain t1 where t1: "set_curr t 0 = Inr t1" "position t1 = position t"
      "\<forall>k. cell t1 k = (if k = head t then 0 else cell t k)"
    using set_curr_cell [OF h, of 0] by blast
  have h1: "head t1 = head t" using t1(2) by (simp add: head_def)
  define t2 where "t2 = t1\<lparr>position := position t1 + ucast (1 :: 16 word)\<rparr>"
  have m: "moveRightBy t1 1 = Inr t2"
    using assms h1 by (simp add: moveRightBy_head t2_def)
  have h2: "head t2 = head t + 1"
    unfolding t2_def using moveRightBy_head_result [of t1 1] assms h1 by simp
  then have h2': "head t2 < 20000" using assms by simp
  obtain t3 where t3: "add t2 (uint (ucast (cell t (head t)) :: 16 word)) = Inr t3" "position t3 = position t2"
      "\<forall>k. cell t3 k = (if k = head t2 then cell t2 (head t2) + word_of_int (uint (ucast (cell t (head t)) :: 16 word)) else cell t2 k)"
    using add_cell [OF h2'] by blast
  have h3: "head t3 = head t + 1" using t3(2) h2 by (simp add: head_def)
  define t4 where "t4 = t3\<lparr>position := position t3 - ucast (1 :: 16 word)\<rparr>"
  have l: "moveLeftBy t3 1 = Inr t4"
    using h3 by (simp add: moveLeftBy_head t4_def head_def)
  have p4: "position t4 = position t"
    by (simp add: t4_def t3(2) t2_def t1(2))
  have c4: "cell t4 k =
              (if k = head t then 0
               else if k = head t + 1 then cell t (head t + 1) + cell t (head t)
               else cell t k)" for k
    using t3(3) t1(3) h2 by (simp add: t4_def t2_def uint_ucast_8_16)
  have "do_add_to_next t = Inr t4"
    by (simp add: do_add_to_next_def then_do_def g t1(1) m t3(1) l)
  with p4 c4 show ?thesis by blast
qed

lemma do_add_to_next_overflow:
  assumes "head t = 19999"
  shows "do_add_to_next t = Inl TapeOverflow"
proof -
  from assms have h: "head t < 20000" by simp
  have g: "get_curr t = Inr (cell t (head t))"
    using h by (rule get_curr_cell)
  obtain t1 where t1: "set_curr t 0 = Inr t1" "position t1 = position t"
    using set_curr_cell [OF h, of 0] by blast
  have h1: "head t1 = head t" using t1(2) by (simp add: head_def)
  have m: "moveRightBy t1 1 = Inl TapeOverflow"
    using assms h1 by (simp add: moveRightBy_head)
  show ?thesis
    by (simp add: do_add_to_next_def then_do_def g t1(1) m)
qed

text \<open>
  C7, as the specification states it: on every tape state \<open>AddToNext\<close> leaves the head
  where it is, zeroes the current cell and adds its prior value to the right
  neighbour.  With the head on the last cell (offset \<open>C-1 = 19999\<close>) there is no right
  neighbour and the instruction fails with a tape overflow.
\<close>

theorem add_to_next_on_last_cell:
  "head (new_tape\<lparr>position := 39999\<rparr>) = 19999 \<and>
   handler \<lparr>op = ADD_TO_NEXT, jump_ref = 0, value = 0\<rparr>
     \<lparr>tape = new_tape\<lparr>position := 39999\<rparr>, pc = 0, input = [], output = []\<rparr>
   = Inl TapeOverflow"
  by (simp add: handler_def on_tape_def do_add_to_next_def then_do_def get_curr_def
      set_curr_def moveRightBy_def new_tape_def TAPE_SIZE_def head_def)

text \<open>
  C7, amended.  On every tape state \<open>SetZero\<close> does what \<open>SetVal(0)\<close> does and
  \<open>AddToNext\<close> does what \<open>MultiplyMove(1)\<close> does: the same resulting state or the same
  fault.  With the head left of the last cell, \<open>AddToNext\<close> (and so \<open>MultiplyMove(1)\<close>)
  leaves the head unchanged, zeroes the current cell, adds its prior value to the right
  neighbour modulo 256 and changes no other cell.  With the head on the last cell both
  fail with a tape overflow.
\<close>

theorem superinstruction_equivalences:
  "handler \<lparr>op = SET_ZERO, jump_ref = j, value = v\<rparr> s =
     handler \<lparr>op = SET_VAL, jump_ref = j', value = 0\<rparr> s \<and>
   handler \<lparr>op = ADD_TO_NEXT, jump_ref = j, value = v\<rparr> s =
     handler \<lparr>op = MULTIPLY_MV, jump_ref = j', value = 1\<rparr> s \<and>
   (head (tape s) < 19999 \<longrightarrow>
      (\<exists>t'. handler \<lparr>op = ADD_TO_NEXT, jump_ref = j, value = v\<rparr> s = Inr (s\<lparr>tape := t'\<rparr>) \<and>
            head t' = head (tape s) \<and>
            (\<forall>k. cell t' k =
               (if k = head (tape s) then 0
                else if k = head (tape s) + 1
                  then cell (tape s) (head (tape s) + 1) + cell (tape s) (head (tape s))
                else cell (tape s) k)))) \<and>
   (head (tape s) = 19999 \<longrightarrow>
      handler \<lparr>op = ADD_TO_NEXT, jump_ref = j, value = v\<rparr> s = Inl TapeOverflow)"
proof (intro conjI impI)
  show "handler \<lparr>op = SET_ZERO, jump_ref = j, value = v\<rparr> s =
     handler \<lparr>op = SET_VAL, jump_ref = j', value = 0\<rparr> s"
    using set_zero_is_set_val_zero [of "tape s" j'] by (simp add: handler_def on_tape_def)
  show "handler \<lparr>op = ADD_TO_NEXT, jump_ref = j, value = v\<rparr> s =
     handler \<lparr>op = MULTIPLY_MV, jump_ref = j', value = 1\<rparr> s"
    using add_to_next_is_multiply_one [of "tape s" j'] by (simp add: handler_def on_tape_def)
next
  assume "head (tape s) < 19999"
  from do_add_to_next_effect [OF this]
  obtain t' where t': "do_add_to_next (tape s) = Inr t'" "position t' = position (tape s)"
    "\<forall>k. cell t' k =
               (if k = head (tape s) then 0
                else if k = head (tape s) + 1
                  then cell (tape s) (head (tape s) + 1) + cell (tape s) (head (tape s))
                else cell (tape s) k)"
    by blast
  from t'(2) have "head t' = head (tape s)"
    by (simp add: head_def)
  moreover from t'(1)
  have "handler \<lparr>op = ADD_TO_NEXT, jump_ref = j, value = v\<rparr> s = Inr (s\<lparr>tape := t'\<rparr>)"
    by (simp add: handler_def on_tape_def then_do_def)
  ultimately show "\<exists>t'. handler \<lparr>op = ADD_TO_NEXT, jump_ref = j, value = v\<rparr> s = Inr (s\<lparr>tape := t'\<rparr>) \<and>
            head t' = head (tape s) \<and>
            (\<forall>k. cell t' k =
               (if k = head (tape s) then 0
                else if k = head (tape s) + 1
                  then cell (tape s) (head (tape s) + 1) + cell (tape s) (head (tape s))
                else cell (tape s) k))"
    using t'(3) by blast
next
  assume "head (tape s) = 19999"
  from do_add_to_next_overflow [OF this]
  show "handler \<lparr>op = ADD_TO_NEXT, jump_ref = j, value = v\<rparr> s = Inl TapeOverflow"
    by (simp add: handler_def on_tape_def then_do_def)
qed

theorem superinstruction_equivalences_witness:
  "head (new_tape\<lparr>right := (\<lambda>k. if k = 0 then 5 else 7)\<rparr>) < 19999 \<and>
   (\<exists>t'. handler \<lparr>op = MULTIPLY_MV, jump_ref = 0, value = 1\<rparr>
           \<lparr>tape = new_tape\<lparr>right := (\<lambda>k. if k = 0 then 5 else 7)\<rparr>, pc = 0, input = [], output = []\<rparr> =
         Inr \<lparr>tape = t', pc = 0, input = [], output = []\<rparr> \<and>
         head t' = 0 \<and> cell t' 0 = 0 \<and> cell t' 1 = 12 \<and> cell t' 2 = 7) \<and>
   head (new_tape\<lparr>position := 39999\<rparr>) = 19999 \<and>
   handler \<lparr>op = MULTIPLY_MV, jump_ref = 0, value = 1\<rparr>
     \<lparr>tape = new_tape\<lparr>position := 39999\<rparr>, pc = 0, input = [], output = []\<rparr> = Inl TapeOverflow"
proof -
  let ?t1 = "new_tape\<lparr>right := (\<lambda>k. if k = 0 then 5 else 7)\<rparr>"
  let ?s1 = "\<lparr>tape = ?t1, pc = 0, input = [], output = []\<rparr>"
  let ?t2 = "new_tape\<lparr>position := 39999\<rparr>"
  let ?s2 = "\<lparr>tape = ?t2, pc = 0, input = [], output = []\<rparr>"
  have h1: "head ?t1 = 0"
    by (simp add: head_def new_tape_def TAPE_SIZE_def)
  have c1: "cell ?t1 0 = 5" "cell ?t1 1 = 7" "cell ?t1 2 = 7"
    by (simp_all add: cell_def)
  have h2: "head ?t2 = 19999"
    by (simp add: head_def)
  note a = superinstruction_equivalences [of 0 0 ?s1 0]
  note b = superinstruction_equivalences [of 0 0 ?s2 0]
  have lt: "head (tape ?s1) < 19999"
    using h1 by simp
  have eq: "head (tape ?s2) = 19999"
    using h2 by simp
  from a [THEN conjunct2, THEN conjunct2, THEN conjunct1, rule_format, OF lt]
  obtain t' where t':
    "handler \<lparr>op = ADD_TO_NEXT, jump_ref = 0, value = 0\<rparr> ?s1 = Inr (?s1\<lparr>tape := t'\<rparr>)"
    "head t' = head (tape ?s1)"
    "\<forall>k. cell t' k =
        (if k = head (tape ?s1) then 0
         else if k = head (tape ?s1) + 1
           then cell (tape ?s1) (head (tape ?s1) + 1) + cell (tape ?s1) (head (tape ?s1))
         else cell (tape ?s1) k)"
    by blast
  from a [THEN conjunct2, THEN conjunct1] t'(1)
  have "handler \<lparr>op = MULTIPLY_MV, jump_ref = 0, value = 1\<rparr> ?s1 =
      Inr \<lparr>tape = t', pc = 0, input = [], output = []\<rparr>"
    by simp
  moreover from t'(2) h1 have "head t' = 0"
    by simp
  moreover from t'(3) h1 c1 have "cell t' 0 = 0" "cell t' 1 = 12" "cell t' 2 = 7"
    by simp_all
  moreover from b [THEN conjunct2, THEN conjunct2, THEN conjunct2, rule_format, OF eq]
    b [THEN conjunct2, THEN conjunct1]
  have "handler \<lparr>op = MULTIPLY_MV, jump_ref = 0, value = 1\<rparr> ?s2 = Inl TapeOverflow"
    by simp
  ultimately show ?thesis
    using h1 h2 by auto
qed

section \<open>Properties of the pattern checks\<close>

text \<open>
  C10.  When the buffer ends in the five characters \<open>[->+<\<close> and the cursor stands on
  their \<open>[\<close>, the guard \<open>pos + 4 >= ops.size()\<close> of the add-to-next check does not
  fire although \<open>pos + 5\<close> is the size of the buffer, and the check reads
  \<open>ops[pos + 5]\<close>, one past the end of the buffer.
\<close>

theorem add_to_next_check_reads_past_end:
  assumes "drop pos ops = ''[->+<''"
  shows "\<not> pos + 4 \<ge> length ops \<and> pos + 5 = length ops \<and>
         is_add_to_next_pattern ops pos = Inl ReadPastEnd"
proof -
  from assms have "length (drop pos ops) = 5"
    by simp
  then have len: "length ops = pos + 5"
    by simp
  have nth: "ops ! (pos + k) = ''[->+<'' ! k" for k
    using assms len by (metis nth_drop le_add1)
  have "ops ! pos = CHR ''[''"
    using nth [of 0] by simp
  moreover have "ops ! (pos + 1) = CHR ''-''"
    using nth [of 1] by simp
  moreover have "ops ! (pos + 2) = CHR ''>''"
    using nth [of 2] by simp
  moreover have "ops ! (pos + 3) = CHR ''+''"
    using nth [of 3] by simp
  moreover have "ops ! (pos + 4) = CHR ''<''"
    using nth [of 4] by simp
  ultimately show ?thesis
    using len by (simp add: is_add_to_next_pattern_def)
qed

theorem add_to_next_check_reads_past_end_witness:
  "drop 2 ''+.[->+<'' = ''[->+<'' \<and> \<not> 2 + 4 \<ge> length ''+.[->+<'' \<and>
   2 + 5 = length ''+.[->+<'' \<and> is_add_to_next_pattern ''+.[->+<'' 2 = Inl ReadPastEnd"
  using add_to_next_check_reads_past_end [of 2 "''+.[->+<''"] by simp

text \<open>The compiler gets there: on the buffer \<open>[->+<\<close> it makes that read.\<close>

lemma compile_reads_past_end:
  "compile ''[->+<'' = Some (Inl ReadPastEnd)"
  by code_simp

section \<open>Properties of the compiler on given programs\<close>

text \<open>
  C1.  With the cursor on \<open>[>]\<close> (on \<open>[<]\<close>) the compiler is to emit one \<open>ScanRight\<close>
  (\<open>ScanLeft\<close>), track no bracket and advance by 3.  The code emits the scan
  instruction and then treats the same \<open>[\<close> as a generic loop opening: the three
  characters give four instructions, the scan followed by a linked
  \<open>JumpForward\<close>, \<open>MovePos\<close>, \<open>JumpBackward\<close>.
\<close>

theorem scan_span_gives_four_instructions:
  "compile ''[>]'' =
     Some (Inr [\<lparr>op = SCAN_RIGHT, jump_ref = 0, value = 0\<rparr>,
                \<lparr>op = JUMP_FWD, jump_ref = 3, value = 0\<rparr>,
                \<lparr>op = MV_POS, jump_ref = 0, value = 1\<rparr>,
                \<lparr>op = JUMP_BACK, jump_ref = 1, value = 0\<rparr>]) \<and>
   compile ''[<]'' =
     Some (Inr [\<lparr>op = SCAN_LEFT, jump_ref = 0, value = 0\<rparr>,
                \<lparr>op = JUMP_FWD, jump_ref = 3, value = 0\<rparr>,
                \<lparr>op = MV_POS, jump_ref = 0, value = - 1\<rparr>,
                \<lparr>op = JUMP_BACK, jump_ref = 1, value = 0\<rparr>])"
  by code_simp

section \<open>Properties of the dump mode\<close>

lemma tag_byte: "unat (ucast (opcode_tag oc) :: 8 word) = unat (opcode_tag oc)"
  by (cases oc) simp_all

text \<open>
  C8.  With \<open>-c\<close>, whenever the compiler returns a sequence, the output is one byte per
  instruction, in the order of the sequence, each equal to the numeric tag of the
  opcode; the tags are 0 to 11 in the order \<open>Output, Input, JumpForward, JumpBackward,
  SetZero, AddVal, MovePos, AddToNext, MultiplyMove, SetVal, ScanRight, ScanLeft\<close>.  The
  output does not depend on the standard input: the program is not run.  For
  \<open>+++[-].\<close> the output is the bytes 5, 4, 0.
\<close>

theorem dump_mode_output:
  "(compile ops = Some (Inr bc) \<longrightarrow>
      (\<exists>out. main True ops inp = Some (Inr out) \<and> length out = length bc \<and>
             (\<forall>k < length bc. unat (out ! k) = unat (opcode_tag (op (bc ! k)))))) \<and>
   map opcode_tag [OUTPUT, INPUT, JUMP_FWD, JUMP_BACK, SET_ZERO, ADD_VAL, MV_POS,
     ADD_TO_NEXT, MULTIPLY_MV, SET_VAL, SCAN_RIGHT, SCAN_LEFT] =
     [0, 1, 2, 3, 4, 5, 6, 7, 8, 9, 10, 11] \<and>
   main True ''+++[-].'' inp = Some (Inr [5, 4, 0])"
proof (intro conjI impI)
  assume "compile ops = Some (Inr bc)"
  then have "main True ops inp = Some (Inr (print_bytecode bc))"
    by (simp add: main_def)
  moreover have "length (print_bytecode bc) = length bc"
    by (simp add: print_bytecode_def)
  moreover have "\<forall>k < length bc. unat (print_bytecode bc ! k) = unat (opcode_tag (op (bc ! k)))"
    by (simp add: print_bytecode_def tag_byte)
  ultimately show "\<exists>out. main True ops inp = Some (Inr out) \<and> length out = length bc \<and>
             (\<forall>k < length bc. unat (out ! k) = unat (opcode_tag (op (bc ! k))))"
    by blast
next
  show "map opcode_tag [OUTPUT, INPUT, JUMP_FWD, JUMP_BACK, SET_ZERO, ADD_VAL, MV_POS,
     ADD_TO_NEXT, MULTIPLY_MV, SET_VAL, SCAN_RIGHT, SCAN_LEFT] =
     [0, 1, 2, 3, 4, 5, 6, 7, 8, 9, 10, 11]"
    by simp
next
  have "compile ''+++[-].'' =
      Some (Inr [\<lparr>op = ADD_VAL, jump_ref = 0, value = 3\<rparr>,
                 \<lparr>op = SET_ZERO, jump_ref = 0, value = 0\<rparr>,
                 \<lparr>op = OUTPUT, jump_ref = 0, value = 0\<rparr>])"
    by code_simp
  then show "main True ''+++[-].'' inp = Some (Inr [5, 4, 0])"
    by (simp add: main_def print_bytecode_def)
qed

theorem dump_mode_output_witness:
  "compile '',[.,]'' =
     Some (Inr [\<lparr>op = INPUT, jump_ref = 0, value = 0\<rparr>,
                \<lparr>op = JUMP_FWD, jump_ref = 4, value = 0\<rparr>,
                \<lparr>op = OUTPUT, jump_ref = 0, value = 0\<rparr>,
                \<lparr>op = INPUT, jump_ref = 0, value = 0\<rparr>,
                \<lparr>op = JUMP_BACK, jump_ref = 1, value = 0\<rparr>]) \<and>
   (\<exists>out. main True '',[.,]'' [97, 0] = Some (Inr out) \<and> map unat out = [1, 2, 0, 1, 3])"
proof -
  let ?bc = "[\<lparr>op = INPUT, jump_ref = 0, value = 0\<rparr>,
                \<lparr>op = JUMP_FWD, jump_ref = 4, value = 0\<rparr>,
                \<lparr>op = OUTPUT, jump_ref = 0, value = 0\<rparr>,
                \<lparr>op = INPUT, jump_ref = 0, value = 0\<rparr>,
                \<lparr>op = JUMP_BACK, jump_ref = 1, value = 0\<rparr>]"
  have c: "compile '',[.,]'' = Some (Inr ?bc)"
    by code_simp
  from dump_mode_output [of "'',[.,]''" ?bc "[97, 0]", THEN conjunct1, rule_format, OF c]
  obtain out where out: "main True '',[.,]'' [97, 0] = Some (Inr out)" "length out = length ?bc"
    "\<forall>k < length ?bc. unat (out ! k) = unat (opcode_tag (op (?bc ! k)))"
    by blast
  from out(2) have len: "length out = 5"
    by simp
  have "unat (out ! 0) = 1" "unat (out ! 1) = 2" "unat (out ! 2) = 0" "unat (out ! 3) = 1" "unat (out ! 4) = 3"
    using out(3) by simp_all
  with len have m: "map unat out = [1, 2, 0, 1, 3]"
    by (auto simp: list_eq_iff_nth_eq less_Suc_eq numeral_eq_Suc nth_Cons')
  from out(1) m have "\<exists>out. main True '',[.,]'' [97, 0] = Some (Inr out) \<and> map unat out = [1, 2, 0, 1, 3]"
    by (intro exI [of _ out] conjI)
  with c show ?thesis
    by (rule conjI)
qed

section \<open>Runs of 65536 characters\<close>

text \<open>
  \<open>count_repeated_chars\<close> counts a run in a \<open>size_t\<close>; the handlers keep the count in
  the \<open>uint16_t repeated_char_count\<close>.
\<close>

lemma count_loop_run:
  assumes "k \<le> n" "rest = [] \<or> hd rest \<noteq> c"
  shows "count_loop (pre @ replicate n c @ rest) (length pre) c k = n"
  using assms(1)
proof (induction "n - k" arbitrary: k)
  case 0
  then have k: "k = n" by simp
  have nc: "\<not> (length pre + n < length (pre @ replicate n c @ rest) \<and>
           (pre @ replicate n c @ rest) ! (length pre + n) = c)"
  proof (cases rest)
    case Nil
    then show ?thesis by simp
  next
    case (Cons r rs)
    with assms(2) have "r \<noteq> c" by simp
    with Cons show ?thesis by (simp add: nth_append)
  qed
  show ?case
    unfolding k by (subst count_loop.simps) (simp only: nc if_False)
next
  case (Suc d)
  then have lt: "k < n" by simp
  then have "(pre @ replicate n c @ rest) ! (length pre + k) = c"
    by (simp add: nth_append)
  moreover from lt have "length pre + k < length (pre @ replicate n c @ rest)"
    by simp
  ultimately have c: "length pre + k < length (pre @ replicate n c @ rest) \<and>
      (pre @ replicate n c @ rest) ! (length pre + k) = c"
    by simp
  have "count_loop (pre @ replicate n c @ rest) (length pre) c k =
      count_loop (pre @ replicate n c @ rest) (length pre) c (k + 1)"
    by (subst count_loop.simps) (simp only: c simp_thms if_True)
  also have "\<dots> = n"
    using Suc.hyps(1) [of "k + 1"] Suc.hyps(2) lt by simp
  finally show ?case .
qed

lemma count_repeated_chars_run:
  assumes "1 \<le> n" "rest = [] \<or> hd rest \<noteq> c"
  shows "count_repeated_chars (pre @ replicate n c @ rest) (length pre) c = n"
  unfolding count_repeated_chars_def using assms by (rule count_loop_run)

lemma count_repeated_chars_replicate:
  "1 \<le> n \<Longrightarrow> count_repeated_chars (replicate n c) 0 c = n"
  using count_repeated_chars_run [of n "[]" c "[]"] by simp

lemma dispatch_on_long_run:
  assumes "cursor st = 0"
  shows "dispatch (replicate 65536 CHR ''>'') st =
           Inr (st\<lparr>bytecode := bytecode st @ [\<lparr>op = MV_POS, jump_ref = 0, value = 0\<rparr>]\<rparr>)"
proof -
  have "count_repeated_chars (replicate 65536 CHR ''>'') 0 CHR ''>'' = 65536"
    by (rule count_repeated_chars_replicate) simp
  with assms show ?thesis
    by (simp add: dispatch_def parse_mv_right_def NEXT_CHAR_N_def push_back_def)
qed

lemma compile_loop_on_long_run:
  assumes "compile_loop ops st = Some r"
  shows "\<not> (ops = replicate 65536 CHR ''>'' \<and> cursor st = 0)"
proof (rule compile_loop.raw_induct
    [where P = "\<lambda>ops st r. \<not> (ops = replicate 65536 CHR ''>'' \<and> cursor st = 0)", OF _ assms])
  fix loop :: "string \<Rightarrow> cstate \<Rightarrow> (fault + Instruction list) option"
  fix ops st r
  assume IH: "\<And>ops st r. loop ops st = Some r \<Longrightarrow>
      \<not> (ops = replicate 65536 CHR ''>'' \<and> cursor st = 0)"
  assume body: "(case dispatch ops st of Inl e \<Rightarrow> Some (Inl e)
      | Inr st' \<Rightarrow> if cursor st' < length ops then loop ops st' else Some (Inr (bytecode st'))) = Some r"
  show "\<not> (ops = replicate 65536 CHR ''>'' \<and> cursor st = 0)"
  proof
    assume a: "ops = replicate 65536 CHR ''>'' \<and> cursor st = 0"
    let ?st' = "st\<lparr>bytecode := bytecode st @ [\<lparr>op = MV_POS, jump_ref = 0, value = 0\<rparr>]\<rparr>"
    from a have "dispatch ops st = Inr ?st'"
      by (simp add: dispatch_on_long_run)
    with body a have "loop ops ?st' = Some r"
      by simp
    from IH [OF this] a show False
      by simp
  qed
qed

text \<open>
  C3.  The compiler is to return an instruction sequence for every input buffer, also
  for a run of 65536 identical characters.  On 65536 times \<open>>\<close> the count is 0 in 16
  bits, the cursor does not advance and the compiler never returns.
\<close>

theorem compile_never_returns_on_long_run:
  "compile (replicate 65536 CHR ''>'') = None"
proof (cases "compile (replicate 65536 CHR ''>'')")
  case None
  then show ?thesis .
next
  case (Some r)
  then have "compile_loop (replicate 65536 CHR ''>'') \<lparr>bytecode = [], loop_stack = [], cursor = 0\<rparr> = Some r"
    by (simp add: compile_def)
  from compile_loop_on_long_run [OF this] show ?thesis
    by simp
qed

text \<open>
  C4.  A maximal run of \<open>k\<close> characters \<open>>\<close> is to give one \<open>MovePos(+k)\<close>, also for
  \<open>k \<ge> 65536\<close>.  On a run of 65536 the handler emits \<open>MovePos(0)\<close> and leaves the
  cursor at the start of the run.
\<close>

theorem long_run_emits_zero_move:
  "parse_mv_right (replicate 65536 CHR ''>'') \<lparr>bytecode = [], loop_stack = [], cursor = 0\<rparr> =
     \<lparr>bytecode = [\<lparr>op = MV_POS, jump_ref = 0, value = 0\<rparr>], loop_stack = [], cursor = 0\<rparr>"
proof -
  have "count_repeated_chars (replicate 65536 CHR ''>'') 0 CHR ''>'' = 65536"
    by (rule count_repeated_chars_replicate) simp
  then show ?thesis
    by (simp add: parse_mv_right_def NEXT_CHAR_N_def push_back_def)
qed

section \<open>Jump targets\<close>

text \<open>
  Every handler keeps \<open>links_ok\<close>: an instruction that is no jump is appended, a
  \<open>JumpForward\<close> is appended and its index pushed, or the top of the stack is popped,
  patched and answered by a \<open>JumpBackward\<close>.
\<close>

lemma links_ok_initial: "links_ok \<lparr>bytecode = [], loop_stack = [], cursor = 0\<rparr>"
  by (simp add: links_ok_def)

lemma links_ok_cursor [simp]: "links_ok (st\<lparr>cursor := c\<rparr>) = links_ok st"
  by (simp add: links_ok_def)

lemma links_ok_NEXT_CHAR_N [simp]: "links_ok (NEXT_CHAR_N n st) = links_ok st"
  by (simp add: NEXT_CHAR_N_def)

lemma links_ok_push_plain:
  assumes "links_ok st" "oc \<noteq> JUMP_FWD" "oc \<noteq> JUMP_BACK"
  shows "links_ok (push_back oc j v st)"
  using assms
  unfolding links_ok_def push_back_def Let_def
  apply (simp add: nth_append less_Suc_eq)
  apply (intro conjI allI impI ballI)
  apply (auto simp: nth_append)
  done

lemma links_ok_push_fwd:
  assumes "links_ok st"
  shows "links_ok (push_back JUMP_FWD 0 0 (st\<lparr>loop_stack := length (bytecode st) # loop_stack st\<rparr>))"
proof -
  let ?bc = "bytecode st" and ?stk = "loop_stack st"
  let ?n = "length ?bc"
  let ?bc' = "?bc @ [\<lparr>op = JUMP_FWD, jump_ref = 0, value = 0\<rparr>]"
  from assms have d: "distinct ?stk"
    and s: "\<And>t. t \<in> set ?stk \<Longrightarrow> t < ?n \<and> op (?bc ! t) = JUMP_FWD \<and> jump_ref (?bc ! t) = 0"
    and b: "\<And>j. j < ?n \<Longrightarrow> op (?bc ! j) = JUMP_BACK \<Longrightarrow>
            jump_ref (?bc ! j) < j \<and> jump_ref (?bc ! j) \<notin> set ?stk \<and>
            op (?bc ! jump_ref (?bc ! j)) = JUMP_FWD \<and>
            jump_ref (?bc ! jump_ref (?bc ! j)) = j"
    and f: "\<And>j. j < ?n \<Longrightarrow> op (?bc ! j) = JUMP_FWD \<Longrightarrow> j \<notin> set ?stk \<Longrightarrow>
            j < jump_ref (?bc ! j) \<and> jump_ref (?bc ! j) < ?n \<and>
            op (?bc ! jump_ref (?bc ! j)) = JUMP_BACK \<and>
            jump_ref (?bc ! jump_ref (?bc ! j)) = j"
    by (simp_all add: links_ok_def Let_def)
  have old: "?bc' ! k = ?bc ! k" if "k < ?n" for k
    using that by (simp add: nth_append)
  have new: "?bc' ! ?n = \<lparr>op = JUMP_FWD, jump_ref = 0, value = 0\<rparr>"
    by simp
  have 1: "distinct (?n # ?stk)"
    using d s by auto
  have 2: "t < length ?bc' \<and> op (?bc' ! t) = JUMP_FWD \<and> jump_ref (?bc' ! t) = 0"
    if "t \<in> set (?n # ?stk)" for t
  proof (cases "t = ?n")
    case True
    then show ?thesis by simp
  next
    case False
    with that have "t \<in> set ?stk" by simp
    from s [OF this] show ?thesis by (simp add: old)
  qed
  have 3: "jump_ref (?bc' ! j) < j \<and> jump_ref (?bc' ! j) \<notin> set (?n # ?stk) \<and>
            op (?bc' ! jump_ref (?bc' ! j)) = JUMP_FWD \<and>
            jump_ref (?bc' ! jump_ref (?bc' ! j)) = j"
    if "j < length ?bc'" "op (?bc' ! j) = JUMP_BACK" for j
  proof -
    from that have jn: "j < ?n" by (cases "j = ?n") simp_all
    with that(2) have "op (?bc ! j) = JUMP_BACK" by (simp add: old)
    from b [OF jn this] jn show ?thesis by (simp add: old)
  qed
  have 4: "j < jump_ref (?bc' ! j) \<and> jump_ref (?bc' ! j) < length ?bc' \<and>
            op (?bc' ! jump_ref (?bc' ! j)) = JUMP_BACK \<and>
            jump_ref (?bc' ! jump_ref (?bc' ! j)) = j"
    if "j < length ?bc'" "op (?bc' ! j) = JUMP_FWD" "j \<notin> set (?n # ?stk)" for j
  proof -
    from that have jn: "j < ?n" by simp
    with that have "op (?bc ! j) = JUMP_FWD" "j \<notin> set ?stk" by (simp_all add: old)
    from f [OF jn this] jn show ?thesis by (simp add: old)
  qed
  show ?thesis
    unfolding links_ok_def Let_def push_back_def
    using 1 2 3 4 by simp
qed

lemma links_ok_jmp_back:
  assumes "links_ok st"
  shows "links_ok (parse_jmp_back st)"
proof (cases "loop_stack st")
  case Nil
  with assms show ?thesis by (simp add: parse_jmp_back_def)
next
  case (Cons t rest)
  let ?bc = "bytecode st" and ?stk = "loop_stack st"
  let ?n = "length ?bc"
  define bc' where "bc' = ?bc[t := (?bc ! t)\<lparr>jump_ref := ?n\<rparr>] @
      [\<lparr>op = JUMP_BACK, jump_ref = t, value = 0\<rparr>]"
  from assms have d: "distinct ?stk"
    and s: "\<And>t. t \<in> set ?stk \<Longrightarrow> t < ?n \<and> op (?bc ! t) = JUMP_FWD \<and> jump_ref (?bc ! t) = 0"
    and b: "\<And>j. j < ?n \<Longrightarrow> op (?bc ! j) = JUMP_BACK \<Longrightarrow>
            jump_ref (?bc ! j) < j \<and> jump_ref (?bc ! j) \<notin> set ?stk \<and>
            op (?bc ! jump_ref (?bc ! j)) = JUMP_FWD \<and>
            jump_ref (?bc ! jump_ref (?bc ! j)) = j"
    and f: "\<And>j. j < ?n \<Longrightarrow> op (?bc ! j) = JUMP_FWD \<Longrightarrow> j \<notin> set ?stk \<Longrightarrow>
            j < jump_ref (?bc ! j) \<and> jump_ref (?bc ! j) < ?n \<and>
            op (?bc ! jump_ref (?bc ! j)) = JUMP_BACK \<and>
            jump_ref (?bc ! jump_ref (?bc ! j)) = j"
    by (simp_all add: links_ok_def Let_def)
  from Cons s [of t] have t: "t < ?n" "op (?bc ! t) = JUMP_FWD"
    by simp_all
  from Cons d have tr: "t \<notin> set rest" "distinct rest"
    by simp_all
  have len: "length bc' = Suc ?n"
    by (simp add: bc'_def)
  have other: "bc' ! k = ?bc ! k" if "k < ?n" "k \<noteq> t" for k
    using that by (simp add: bc'_def nth_append)
  have at_t: "bc' ! t = (?bc ! t)\<lparr>jump_ref := ?n\<rparr>"
    using t(1) by (simp add: bc'_def nth_append)
  have at_n: "bc' ! ?n = \<lparr>op = JUMP_BACK, jump_ref = t, value = 0\<rparr>"
    by (simp add: bc'_def nth_append)
  have op_same: "op (bc' ! k) = op (?bc ! k)" if "k < ?n" for k
    using that at_t other by (cases "k = t") simp_all
  have 2: "u < length bc' \<and> op (bc' ! u) = JUMP_FWD \<and> jump_ref (bc' ! u) = 0"
    if "u \<in> set rest" for u
  proof -
    from that Cons have "u \<in> set ?stk" by simp
    from s [OF this] have u: "u < ?n" "op (?bc ! u) = JUMP_FWD" "jump_ref (?bc ! u) = 0"
      by simp_all
    from that tr have "u \<noteq> t" by auto
    with u show ?thesis by (simp add: other len)
  qed
  have 3: "jump_ref (bc' ! j) < j \<and> jump_ref (bc' ! j) \<notin> set rest \<and>
            op (bc' ! jump_ref (bc' ! j)) = JUMP_FWD \<and>
            jump_ref (bc' ! jump_ref (bc' ! j)) = j"
    if "j < length bc'" "op (bc' ! j) = JUMP_BACK" for j
  proof (cases "j = ?n")
    case True
    with t tr at_t at_n show ?thesis
      by simp
  next
    case False
    with that(1) len have jn: "j < ?n" by simp
    with that(2) have jb: "op (?bc ! j) = JUMP_BACK" by (simp only: op_same)
    with t have "j \<noteq> t" by auto
    then have eq: "bc' ! j = ?bc ! j" using jn by (rule other [rotated])
    from b [OF jn jb] have r: "jump_ref (?bc ! j) < j" "jump_ref (?bc ! j) \<notin> set ?stk"
        "op (?bc ! jump_ref (?bc ! j)) = JUMP_FWD" "jump_ref (?bc ! jump_ref (?bc ! j)) = j"
      by simp_all
    from r(2) Cons have ne: "jump_ref (?bc ! j) \<noteq> t" and nr: "jump_ref (?bc ! j) \<notin> set rest"
      by auto
    from r(1) jn have "jump_ref (?bc ! j) < ?n" by simp
    then have "bc' ! jump_ref (?bc ! j) = ?bc ! jump_ref (?bc ! j)"
      using ne by (rule other)
    with r eq nr show ?thesis
      by simp
  qed
  have 4: "j < jump_ref (bc' ! j) \<and> jump_ref (bc' ! j) < length bc' \<and>
            op (bc' ! jump_ref (bc' ! j)) = JUMP_BACK \<and>
            jump_ref (bc' ! jump_ref (bc' ! j)) = j"
    if "j < length bc'" "op (bc' ! j) = JUMP_FWD" "j \<notin> set rest" for j
  proof -
    from that(2) have "j \<noteq> ?n" using at_n by auto
    with that(1) len have jn: "j < ?n" by simp
    show ?thesis
    proof (cases "j = t")
      case True
      with t at_t at_n len show ?thesis
        by simp
    next
      case False
      with that(3) Cons have ns: "j \<notin> set ?stk" by simp
      from jn False have eq: "bc' ! j = ?bc ! j" by (rule other)
      with that(2) have jf: "op (?bc ! j) = JUMP_FWD" by simp
      from f [OF jn jf ns] have r: "j < jump_ref (?bc ! j)" "jump_ref (?bc ! j) < ?n"
          "op (?bc ! jump_ref (?bc ! j)) = JUMP_BACK" "jump_ref (?bc ! jump_ref (?bc ! j)) = j"
        by simp_all
      from r(3) t(2) have "jump_ref (?bc ! j) \<noteq> t" by auto
      with r(2) have "bc' ! jump_ref (?bc ! j) = ?bc ! jump_ref (?bc ! j)"
        by (rule other)
      with r eq len show ?thesis
        by simp
    qed
  qed
  have "parse_jmp_back st =
      NEXT_CHAR_N 1 (st\<lparr>bytecode := bc', loop_stack := rest\<rparr>)"
    using Cons by (simp add: parse_jmp_back_def push_back_def Let_def bc'_def)
  moreover have "links_ok (st\<lparr>bytecode := bc', loop_stack := rest\<rparr>)"
    unfolding links_ok_def Let_def
    using tr(2) 2 3 4 by simp
  ultimately show ?thesis
    by simp
qed

lemma links_ok_parse_jmp_fwd:
  assumes "links_ok st" "parse_jmp_fwd ops st = Inr st'"
  shows "links_ok st'"
proof -
  define st1 where "st1 =
    (if found (is_scan_pattern ops (cursor st))
     then (if val (is_scan_pattern ops (cursor st)) \<noteq> 0 then push_back SCAN_RIGHT 0 0 st
           else push_back SCAN_LEFT 0 0 st)
     else st)"
  have l1: "links_ok st1"
    unfolding st1_def using assms(1) by (simp add: links_ok_push_plain)
  have c1: "cursor st1 = cursor st"
    unfolding st1_def by (simp add: push_back_def)
  from assms(2) show ?thesis
    unfolding parse_jmp_fwd_def Let_def st1_def [symmetric] c1
    using assms(1) l1
    by (auto simp: links_ok_push_plain links_ok_push_fwd split: if_splits sum.splits bool.splits)
qed

lemma links_ok_dispatch:
  assumes "links_ok st" "dispatch ops st = Inr st'"
  shows "links_ok st'"
  using assms
  by (auto simp: dispatch_def Let_def parse_mv_right_def parse_mv_left_def parse_inc_val_def
      parse_dec_val_def parse_output_def parse_input_def parse_unknown_def
      links_ok_push_plain links_ok_jmp_back links_ok_parse_jmp_fwd split: if_splits)

section \<open>Instruction fetches\<close>

text \<open>
  A handler fails only with a fault of the tape, and \<open>NEXT\<close> dispatches only when the
  incremented \<open>pc\<close> is inside the sequence.
\<close>

lemma tape_fault_simps [simp]:
  "tape_fault TapeOverflow" "tape_fault TapeUnderflow" "tape_fault (CellOutOfRange k)"
  "\<not> tape_fault (FetchPastEnd k)" "\<not> tape_fault ReadPastEnd"
  by (simp_all add: tape_fault_def)

lemma get_curr_fault: "get_curr t = Inl e \<Longrightarrow> tape_fault e"
  by (auto simp: get_curr_def Let_def split: if_splits)

lemma set_curr_fault: "set_curr t v = Inl e \<Longrightarrow> tape_fault e"
  by (auto simp: set_curr_def Let_def split: if_splits)

lemma add_fault: "add t x = Inl e \<Longrightarrow> tape_fault e"
  by (auto simp: add_def Let_def split: if_splits)

lemma moveRightBy_fault: "moveRightBy t n = Inl e \<Longrightarrow> tape_fault e"
  by (auto simp: moveRightBy_def split: if_splits)

lemma moveLeftBy_fault: "moveLeftBy t n = Inl e \<Longrightarrow> tape_fault e"
  by (auto simp: moveLeftBy_def split: if_splits)

lemmas tape_faults = get_curr_fault set_curr_fault add_fault moveRightBy_fault moveLeftBy_fault

lemma do_scan_right_fault: "do_scan_right t = Inl e \<Longrightarrow> tape_fault e"
proof (induction t rule: do_scan_right.induct)
  case (1 t)
  from "1.prems" show ?case
    by (subst (asm) do_scan_right.simps)
      (auto split: sum.splits if_splits dest: tape_faults "1.IH")
qed

lemma do_scan_left_fault: "do_scan_left t = Inl e \<Longrightarrow> tape_fault e"
proof (induction t rule: do_scan_left.induct)
  case (1 t)
  from "1.prems" show ?case
    by (subst (asm) do_scan_left.simps)
      (auto split: sum.splits if_splits dest: tape_faults "1.IH")
qed

lemma do_add_to_next_fault: "do_add_to_next t = Inl e \<Longrightarrow> tape_fault e"
  by (auto simp: do_add_to_next_def then_do_def Let_def split: sum.splits dest: tape_faults)

lemma do_multiply_mv_fault: "do_multiply_mv instr t = Inl e \<Longrightarrow> tape_fault e"
  by (auto simp: do_multiply_mv_def then_do_def Let_def split: sum.splits dest: tape_faults)

lemma on_tape_fault:
  assumes "\<And>t e. f t = Inl e \<Longrightarrow> tape_fault e" "on_tape f s = Inl e"
  shows "tape_fault e"
  using assms by (auto simp: on_tape_def then_do_def split: sum.splits)

lemma on_tape_pc: "on_tape f s = Inr s' \<Longrightarrow> pc s' = pc s"
  by (auto simp: on_tape_def then_do_def split: sum.splits)

lemma handler_fault: "handler instr s = Inl e \<Longrightarrow> tape_fault e"
  unfolding handler_def
  by (cases "op instr")
    (auto simp: do_output_def do_input_def do_jmp_fwd_def do_jmp_back_def do_set_zero_def
      do_add_val_def do_mv_pos_def do_set_val_def then_do_def
      split: sum.splits list.splits if_splits
      dest: tape_faults do_scan_right_fault do_scan_left_fault do_add_to_next_fault
        do_multiply_mv_fault
      elim!: on_tape_fault [rotated])

lemma handler_pc:
  assumes "handler instr s = Inr s'"
  shows "pc s' = pc s \<or> pc s' = jump_ref instr"
  using assms unfolding handler_def
  by (cases "op instr")
    (auto simp: do_output_def do_input_def do_jmp_fwd_def do_jmp_back_def then_do_def
      split: sum.splits list.splits if_splits dest: on_tape_pc)

lemma interp_step_safe:
  assumes "pc s < length bc"
  shows "(interp_step bc s = Inl e \<longrightarrow> tape_fault e) \<and>
         (interp_step bc s = Inr (Dispatch s') \<longrightarrow> pc s' < length bc)"
  using assms
  by (auto simp: interp_step_def fetch_def then_do_def NEXT_def Let_def
      split: sum.splits if_splits dest: handler_fault)

lemma rounds_safe:
  assumes "pc s < length bc"
  shows "(rounds n bc s = Inl e \<longrightarrow> tape_fault e) \<and>
         (rounds n bc s = Inr (Dispatch s') \<longrightarrow> pc s' < length bc)"
  using assms
proof (induction n arbitrary: s)
  case 0
  then show ?case by auto
next
  case (Suc n)
  show ?case
  proof (cases "interp_step bc s")
    case (Inl e')
    with interp_step_safe [OF Suc.prems, of e'] show ?thesis
      by auto
  next
    case (Inr c)
    show ?thesis
    proof (cases c)
      case (Dispatch s1)
      with Inr interp_step_safe [OF Suc.prems, of _ s1] have "pc s1 < length bc"
        by simp
      from Suc.IH [OF this] Inr Dispatch show ?thesis
        by simp
    next
      case (Return s1)
      with Inr show ?thesis by simp
    qed
  qed
qed

lemma interp_loop_safe:
  assumes "interp_loop bc s = Some r"
  shows "pc s < length bc \<longrightarrow> (\<forall>e. r = Inl e \<longrightarrow> tape_fault e)"
proof (rule interp_loop.raw_induct
    [where P = "\<lambda>bc s r. pc s < length bc \<longrightarrow> (\<forall>e. r = Inl e \<longrightarrow> tape_fault e)", OF _ assms])
  fix loop :: "Instruction list \<Rightarrow> istate \<Rightarrow> (fault + istate) option"
  fix bc s r
  assume IH: "\<And>bc s r. loop bc s = Some r \<Longrightarrow>
      pc s < length bc \<longrightarrow> (\<forall>e. r = Inl e \<longrightarrow> tape_fault e)"
  assume body: "(case interp_step bc s of Inl e \<Rightarrow> Some (Inl e)
      | Inr (Dispatch s') \<Rightarrow> loop bc s'
      | Inr (Return s') \<Rightarrow> Some (Inr s')) = Some r"
  show "pc s < length bc \<longrightarrow> (\<forall>e. r = Inl e \<longrightarrow> tape_fault e)"
  proof (intro impI allI)
    fix e
    assume lt: "pc s < length bc" and r: "r = Inl e"
    show "tape_fault e"
    proof (cases "interp_step bc s")
      case (Inl e')
      with body r interp_step_safe [OF lt, of e'] show ?thesis
        by auto
    next
      case (Inr c)
      show ?thesis
      proof (cases c)
        case (Dispatch s1)
        with Inr interp_step_safe [OF lt, of _ s1] have "pc s1 < length bc"
          by simp
        moreover from body Inr Dispatch have "loop bc s1 = Some r"
          by simp
        ultimately show ?thesis
          using IH r by blast
      next
        case (Return s1)
        with body Inr r show ?thesis by simp
      qed
    qed
  qed
qed

text \<open>
  C9.  For a non-empty sequence whose jump targets all lie inside the sequence, the
  program counter starts at 0 and, after any number of rounds of the loop, either the
  loop has returned or failed with a fault of the tape, or it is about to dispatch with
  a program counter inside the sequence: no round and no run of the interpreter ends in
  a fetch past the end.  (With targets inside the sequence \<open>++pc\<close> cannot wrap, so the
  \<open>nat\<close> program counter is exact.)
\<close>

theorem fetches_stay_in_bounds:
  assumes "bc \<noteq> []" and "\<forall>k < length bc. jump_ref (bc ! k) < length bc"
  shows "pc (initial inp) = 0 \<and>
         (\<forall>k. rounds n bc (initial inp) \<noteq> Inl (FetchPastEnd k)) \<and>
         (\<forall>s. rounds n bc (initial inp) = Inr (Dispatch s) \<longrightarrow> pc s < length bc) \<and>
         (\<forall>k. interprete bc inp \<noteq> Some (Inl (FetchPastEnd k)))"
proof -
  have p0: "pc (initial inp) = 0"
    by (simp add: initial_def)
  with assms(1) have lt: "pc (initial inp) < length bc"
    by simp
  have "rounds n bc (initial inp) \<noteq> Inl (FetchPastEnd k)" for k
    using rounds_safe [OF lt, of n "FetchPastEnd k"] by auto
  moreover have "pc s < length bc" if "rounds n bc (initial inp) = Inr (Dispatch s)" for s
    using rounds_safe [OF lt, of n _ s] that by simp
  moreover have "interprete bc inp \<noteq> Some (Inl (FetchPastEnd k))" for k
  proof
    assume "interprete bc inp = Some (Inl (FetchPastEnd k))"
    with assms(1) have "interp_loop bc (initial inp) = Some (Inl (FetchPastEnd k))"
      by (simp add: interprete_def)
    from interp_loop_safe [OF this] lt show False
      by simp
  qed
  ultimately show ?thesis
    using p0 by blast
qed

theorem fetches_stay_in_bounds_witness:
  "\<exists>s. rounds (Suc (Suc (Suc 0)))
          [\<lparr>op = ADD_VAL, jump_ref = 0, value = 1\<rparr>,
           \<lparr>op = JUMP_FWD, jump_ref = 2, value = 0\<rparr>,
           \<lparr>op = JUMP_BACK, jump_ref = 1, value = 0\<rparr>] (initial []) = Inr (Dispatch s) \<and>
        pc s < 3"
proof -
  let ?bc = "[\<lparr>op = ADD_VAL, jump_ref = 0, value = 1\<rparr>,
              \<lparr>op = JUMP_FWD, jump_ref = 2, value = 0\<rparr>,
              \<lparr>op = JUMP_BACK, jump_ref = 1, value = 0\<rparr>]"
  have ne: "?bc \<noteq> []"
    by simp
  have tg: "\<forall>k < length ?bc. jump_ref (?bc ! k) < length ?bc"
    by (auto simp: less_Suc_eq numeral_eq_Suc)
  have "\<exists>s. rounds (Suc (Suc (Suc 0))) ?bc (initial []) = Inr (Dispatch s)"
    by (simp add: interp_step_def fetch_def handler_def then_do_def on_tape_def
        do_add_val_def do_jmp_fwd_def do_jmp_back_def NEXT_def initial_def
        new_tape_def get_curr_def add_def TAPE_SIZE_def)
  then obtain s where s: "rounds (Suc (Suc (Suc 0))) ?bc (initial []) = Inr (Dispatch s)"
    by blast
  from fetches_stay_in_bounds [OF ne tg, of "[]" "Suc (Suc (Suc 0))"] s have "pc s < 3"
    by simp
  with s show ?thesis
    by blast
qed

section \<open>Bytes that are no commands\<close>

subsection \<open>The compiler looks at the buffer from the cursor on\<close>







lemma count_loop_drop:
  "d \<le> length ops \<Longrightarrow>
   count_loop ops (d + start) target count = count_loop (drop d ops) start target count"
proof (induction "drop d ops" start target count rule: count_loop.induct)
  case (1 start target count)
  show ?case
  proof (cases "start + count < length (drop d ops) \<and> drop d ops ! (start + count) = target")
    case True
    then have c: "d + start + count < length ops \<and> ops ! (d + start + count) = target"
      using "1.prems" by (auto simp: add.assoc)
    have "count_loop ops (d + start) target count = count_loop ops (d + start) target (count + 1)"
      using c by (subst count_loop.simps) simp
    also have "\<dots> = count_loop (drop d ops) start target (count + 1)"
      using "1.hyps" [OF True "1.prems"] .
    also have "\<dots> = count_loop (drop d ops) start target count"
      using True by (subst (2) count_loop.simps) simp
    finally show ?thesis .
  next
    case False
    then have c: "\<not> (d + start + count < length ops \<and> ops ! (d + start + count) = target)"
      using "1.prems" by (auto simp: add.assoc)
    have "count_loop ops (d + start) target count = count"
      using c by (subst count_loop.simps) auto
    moreover have "count_loop (drop d ops) start target count = count"
      using False by (subst count_loop.simps) auto
    ultimately show ?thesis by simp
  qed
qed




lemma count_repeated_chars_drop:
  "d \<le> length ops \<Longrightarrow>
   count_repeated_chars ops (d + start) target = count_repeated_chars (drop d ops) start target"
  by (simp add: count_repeated_chars_def count_loop_drop)


lemma shift_push_back [simp]: "push_back oc j v (shift d st) = shift d (push_back oc j v st)"
  by (simp add: shift_def push_back_def)

lemma shift_NEXT_CHAR_N [simp]: "NEXT_CHAR_N m (shift d st) = shift d (NEXT_CHAR_N m st)"
  by (simp add: shift_def NEXT_CHAR_N_def)

lemma shift_loop_stack_update [simp]:
  "(shift d st)\<lparr>loop_stack := s\<rparr> = shift d (st\<lparr>loop_stack := s\<rparr>)"
  by (simp add: shift_def)








subsection \<open>Skipping\<close>


lemma shift_shift [simp]: "shift a (shift b st) = shift (b + a) st"
  by (simp add: shift_def)

lemma shift_0 [simp]: "shift 0 st = st"
  by (simp add: shift_def)




subsection \<open>Insertion where no look-ahead passes\<close>




lemma not_blocker_simps [simp]:
  "\<not> blocker CHR ''>''" "\<not> blocker CHR ''<''" "\<not> blocker CHR ''+''" "\<not> blocker CHR ''-''"
  "\<not> blocker CHR '']''"
  by (simp_all add: blocker_def)






lemma plus_minus_loop_ge: "k \<le> snd (plus_minus_loop ops k acc)"
proof (induction ops k acc rule: plus_minus_loop.induct)
  case (1 ops k acc)
  show ?case
  proof (cases "k < length ops \<and> (ops ! k = CHR ''+'' \<or> ops ! k = CHR ''-'')")
    case True
    then have "plus_minus_loop ops k acc =
        plus_minus_loop ops (k + 1) (acc + (if ops ! k = CHR ''+'' then 1 else - 1))"
      by (subst plus_minus_loop.simps) simp
    with "1.IH" [OF True] show ?thesis by simp
  next
    case False
    then have "plus_minus_loop ops k acc = (acc, k)"
      by (subst plus_minus_loop.simps) auto
    then show ?thesis by simp
  qed
qed




lemma unat_of_nat_16_le: "unat (of_nat n :: 16 word) \<le> n"
  by (simp add: unat_of_nat)

lemma cursor_push_back [simp]: "cursor (push_back oc j v st) = cursor st"
  by (simp add: push_back_def)

lemma cursor_NEXT_CHAR_N [simp]: "cursor (NEXT_CHAR_N n st) = cursor st + n"
  by (simp add: NEXT_CHAR_N_def)

lemma cursor_scan_branch [simp]:
  "cursor (if a then (if b then push_back oc j v st else push_back oc' j' v' st) else st) = cursor st"
  by simp










section \<open>Buffers shorter than 65536 bytes\<close>

text \<open>
  On a buffer shorter than 65536 bytes no count is lost in the 16-bit local: every
  handler moves the cursor forward and the compiler returns, with a sequence or with
  the read past the end of the buffer.
\<close>

lemma count_loop_bounds:
  assumes "start + count \<le> length ops"
  shows "count \<le> count_loop ops start c count \<and> start + count_loop ops start c count \<le> length ops"
  using assms
proof (induction ops start c count rule: count_loop.induct)
  case (1 ops start target count)
  show ?case
  proof (cases "start + count < length ops \<and> ops ! (start + count) = target")
    case True
    then have "count_loop ops start target count = count_loop ops start target (count + 1)"
      by (subst count_loop.simps) simp
    with "1.IH" [OF True] True show ?thesis by simp
  next
    case False
    then have "count_loop ops start target count = count"
      by (subst count_loop.simps) auto
    with "1.prems" show ?thesis by simp
  qed
qed

lemma count_repeated_chars_bounds:
  assumes "start < length ops"
  shows "1 \<le> count_repeated_chars ops start c \<and>
         start + count_repeated_chars ops start c \<le> length ops"
  using count_loop_bounds [of start 1 ops c] assms by (simp add: count_repeated_chars_def)

lemma unat_of_nat_16: "n < 65536 \<Longrightarrow> unat (of_nat n :: 16 word) = n"
  by (simp add: unat_of_nat)

lemma run_advance:
  assumes "cursor st < length ops" "length ops < 65536"
  shows "0 < unat (of_nat (count_repeated_chars ops (cursor st) c) :: 16 word)"
proof -
  from count_repeated_chars_bounds [OF assms(1), of c] assms(2)
  have "1 \<le> count_repeated_chars ops (cursor st) c" "count_repeated_chars ops (cursor st) c < 65536"
    by simp_all
  then show ?thesis by (simp add: unat_of_nat_16)
qed

lemma is_set_value_pattern_len:
  "found (is_set_value_pattern ops pos) \<Longrightarrow> 0 < len_of_pattern (is_set_value_pattern ops pos)"
proof -
  assume f: "found (is_set_value_pattern ops pos)"
  obtain v k where pm: "plus_minus_loop ops (pos + 3) 0 = (v, k)"
    by (cases "plus_minus_loop ops (pos + 3) 0")
  with plus_minus_loop_ge [of "pos + 3" ops 0] have "pos + 3 \<le> k" by simp
  with f pm show ?thesis
    by (auto simp: is_set_value_pattern_def not_found_def split: if_splits)
qed

lemma is_multiply_move_pattern_len:
  "found (is_multiply_move_pattern ops pos) \<Longrightarrow> 0 < len_of_pattern (is_multiply_move_pattern ops pos)"
proof -
  assume f: "found (is_multiply_move_pattern ops pos)"
  obtain v k where pm: "plus_minus_loop ops (pos + 3) 0 = (v, k)"
    by (cases "plus_minus_loop ops (pos + 3) 0")
  with plus_minus_loop_ge [of "pos + 3" ops 0] have "pos + 3 \<le> k" by simp
  with f pm show ?thesis
    by (auto simp: is_multiply_move_pattern_def not_found_def split: if_splits)
qed

lemma dispatch_advances:
  assumes "cursor st < length ops" "length ops < 65536" "dispatch ops st = Inr st'"
  shows "cursor st < cursor st'"
  using assms(3) run_advance [OF assms(1,2)]
    is_set_value_pattern_len [of ops "cursor st"] is_multiply_move_pattern_len [of ops "cursor st"]
  unfolding dispatch_def Let_def parse_mv_right_def parse_mv_left_def parse_inc_val_def
    parse_dec_val_def parse_output_def parse_input_def parse_unknown_def parse_jmp_back_def
    parse_jmp_fwd_def
  by (auto split: if_splits sum.splits bool.splits)

lemma compile_loop_returns:
  assumes "length ops < 65536" "cursor st < length ops"
  shows "compile_loop ops st \<noteq> None"
  using assms(2)
proof (induction "length ops - cursor st" arbitrary: st rule: less_induct)
  case less
  show ?case
  proof (cases "dispatch ops st")
    case (Inl e)
    then show ?thesis
      by (simp add: compile_loop.simps [of ops st])
  next
    case (Inr st')
    from dispatch_advances [OF less.prems assms(1) Inr] have adv: "cursor st < cursor st'" .
    show ?thesis
    proof (cases "cursor st' < length ops")
      case True
      with adv less.prems have "length ops - cursor st' < length ops - cursor st" by simp
      from less.hyps [OF this True] Inr True show ?thesis
        by (simp add: compile_loop.simps [of ops st])
    next
      case False
      with Inr show ?thesis
        by (simp add: compile_loop.simps [of ops st])
    qed
  qed
qed

lemma compile_returns_on_short_buffers:
  assumes "length ops < 65536"
  shows "\<exists>r. compile ops = Some r"
proof (cases "ops = []")
  case True
  then show ?thesis by (simp add: compile_def)
next
  case False
  with compile_loop_returns [OF assms, of "\<lparr>bytecode = [], loop_stack = [], cursor = 0\<rparr>"]
  show ?thesis by (simp add: compile_def)
qed

text \<open>
  With the cursor on the first character of a run of \<open>k \<le> 65535\<close> characters that ends
  at the end of the buffer or at another character, the handler of the run emits one
  instruction with operand \<open>k\<close> or \<open>-k\<close> and moves the cursor behind the run.
\<close>

lemma count_at_run:
  assumes "drop (cursor st) ops = replicate k c @ rest" "1 \<le> k" "rest = [] \<or> hd rest \<noteq> c"
  shows "count_repeated_chars ops (cursor st) c = k"
proof -
  have le: "cursor st \<le> length ops"
    using assms(1,2) by (cases "cursor st \<le> length ops") auto
  have "count_repeated_chars ops (cursor st + 0) c = count_repeated_chars (drop (cursor st) ops) 0 c"
    using le by (rule count_repeated_chars_drop)
  also have "\<dots> = k"
    using count_repeated_chars_run [OF assms(2,3), of "[]"] assms(1) by simp
  finally show ?thesis by simp
qed

lemma run_folding:
  assumes "drop (cursor st) ops = replicate k c @ rest" "1 \<le> k" "k < 65536"
    "rest = [] \<or> hd rest \<noteq> c"
  shows "c = CHR ''>'' \<longrightarrow> parse_mv_right ops st =
           (push_back MV_POS 0 (int k) st)\<lparr>cursor := cursor st + k\<rparr>"
    and "c = CHR ''<'' \<longrightarrow> parse_mv_left ops st =
           (push_back MV_POS 0 (- int k) st)\<lparr>cursor := cursor st + k\<rparr>"
    and "c = CHR ''+'' \<longrightarrow> parse_inc_val ops st =
           (push_back ADD_VAL 0 (int k) st)\<lparr>cursor := cursor st + k\<rparr>"
    and "c = CHR ''-'' \<longrightarrow> parse_dec_val ops st =
           (push_back ADD_VAL 0 (- int k) st)\<lparr>cursor := cursor st + k\<rparr>"
proof -
  note cnt = count_at_run [OF assms(1,2,4)]
  have u: "unat (of_nat k :: 16 word) = k" "uint (of_nat k :: 16 word) = int k"
    using assms(3) by (simp_all add: unat_of_nat_16 uint_nat)
  show "c = CHR ''>'' \<longrightarrow> parse_mv_right ops st =
           (push_back MV_POS 0 (int k) st)\<lparr>cursor := cursor st + k\<rparr>"
    using cnt u by (auto simp: parse_mv_right_def NEXT_CHAR_N_def push_back_def)
  show "c = CHR ''<'' \<longrightarrow> parse_mv_left ops st =
           (push_back MV_POS 0 (- int k) st)\<lparr>cursor := cursor st + k\<rparr>"
    using cnt u by (auto simp: parse_mv_left_def NEXT_CHAR_N_def push_back_def)
  show "c = CHR ''+'' \<longrightarrow> parse_inc_val ops st =
           (push_back ADD_VAL 0 (int k) st)\<lparr>cursor := cursor st + k\<rparr>"
    using cnt u by (auto simp: parse_inc_val_def NEXT_CHAR_N_def push_back_def)
  show "c = CHR ''-'' \<longrightarrow> parse_dec_val ops st =
           (push_back ADD_VAL 0 (- int k) st)\<lparr>cursor := cursor st + k\<rparr>"
    using cnt u by (auto simp: parse_dec_val_def NEXT_CHAR_N_def push_back_def)
qed

section \<open>Bytes that are no commands, at the end of the buffer\<close>




















section \<open>Jumps and the brackets they come from\<close>

subsection \<open>Matching brackets\<close>

lemma in_set_tlD: "x \<in> set (tl xs) \<Longrightarrow> x \<in> set xs"
  by (cases xs) simp_all

lemma open_brackets_elem:
  "q \<in> set (open_brackets ops n) \<Longrightarrow> q < n \<and> ops ! q = CHR ''[''"
proof (induction n)
  case 0
  then show ?case by simp
next
  case (Suc n)
  then show ?case
    by (auto simp: less_Suc_eq split: if_splits dest: in_set_tlD)
qed

lemma open_brackets_distinct: "distinct (open_brackets ops n)"
proof (induction n)
  case 0
  then show ?case by simp
next
  case (Suc n)
  then show ?case
    by (auto simp: distinct_tl dest: open_brackets_elem)
qed

lemma depth_append:
  "depth (s @ t) d = (case depth s d of None \<Rightarrow> None | Some e \<Rightarrow> depth t e)"
  by (induction s arbitrary: d) (auto split: nat.splits)

lemma between_Suc:
  assumes "q < n" "n < length ops"
  shows "between ops q (Suc n) = between ops q n @ [ops ! n]"
proof -
  have "n - Suc q < length (drop (Suc q) ops)"
    using assms by simp
  then have "take (Suc (n - Suc q)) (drop (Suc q) ops) =
      take (n - Suc q) (drop (Suc q) ops) @ [drop (Suc q) ops ! (n - Suc q)]"
    by (rule take_Suc_conv_app_nth)
  moreover have "drop (Suc q) ops ! (n - Suc q) = ops ! n"
    using assms by simp
  moreover have "Suc n - Suc q = Suc (n - Suc q)"
    using assms by simp
  ultimately show ?thesis
    by (simp add: between_def)
qed

lemma open_brackets_below:
  assumes "n \<le> length ops" "q \<in> set (open_brackets ops n)"
  shows "\<exists>X. open_brackets ops n = X @ q # open_brackets ops q \<and>
             depth (between ops q n) 0 = Some (length X)"
  using assms
proof (induction n)
  case 0
  then show ?case by simp
next
  case (Suc n)
  then have n: "n < length ops" by simp
  show ?case
  proof (cases "q = n")
    case True
    with Suc.prems(2) open_brackets_elem [of n ops n] have "ops ! n = CHR ''[''"
      by (auto split: if_splits dest: in_set_tlD)
    with True show ?thesis
      by (simp add: between_def)
  next
    case False
    with Suc.prems(2) have mem: "q \<in> set (open_brackets ops n)"
      by (auto split: if_splits dest: in_set_tlD)
    with Suc.IH n obtain X where X: "open_brackets ops n = X @ q # open_brackets ops q"
        "depth (between ops q n) 0 = Some (length X)"
      by auto
    from mem have qn: "q < n" by (auto dest: open_brackets_elem)
    note btw = between_Suc [OF qn n]
    show ?thesis
    proof (cases "ops ! n = CHR ''[''")
      case True
      with X btw have "open_brackets ops (Suc n) = (n # X) @ q # open_brackets ops q \<and>
          depth (between ops q (Suc n)) 0 = Some (length (n # X))"
        by (simp add: depth_append)
      then show ?thesis by blast
    next
      case no: False
      show ?thesis
      proof (cases "ops ! n = CHR '']''")
        case True
        have "X \<noteq> []"
        proof
          assume "X = []"
          with X(1) True no Suc.prems(2) have "q \<in> set (open_brackets ops q)"
            by simp
          then show False by (auto dest: open_brackets_elem)
        qed
        then obtain x X' where XX: "X = x # X'" by (cases X) auto
        with X btw True no have "open_brackets ops (Suc n) = X' @ q # open_brackets ops q \<and>
            depth (between ops q (Suc n)) 0 = Some (length X')"
          by (simp add: depth_append)
        then show ?thesis by blast
      next
        case False
        with X btw no have "open_brackets ops (Suc n) = X @ q # open_brackets ops q \<and>
            depth (between ops q (Suc n)) 0 = Some (length X)"
          by (simp add: depth_append)
        then show ?thesis by blast
      qed
    qed
  qed
qed

lemma open_brackets_after:
  assumes "p + m \<le> length ops" "depth (take m (drop p ops)) d = Some e"
    "open_brackets ops p = X @ T" "length X = d"
  shows "\<exists>X'. open_brackets ops (p + m) = X' @ T \<and> length X' = e"
  using assms
proof (induction m arbitrary: p d X)
  case 0
  then show ?case by simp
next
  case (Suc m)
  then have p: "p < length ops" by simp
  then have tk: "take (Suc m) (drop p ops) = ops ! p # take m (drop (Suc p) ops)"
    by (simp add: Cons_nth_drop_Suc [symmetric])
  have le: "Suc p + m \<le> length ops"
    using Suc.prems(1) by simp
  show ?case
  proof (cases "ops ! p = CHR ''[''")
    case True
    with Suc.prems(2) tk have d: "depth (take m (drop (Suc p) ops)) (Suc d) = Some e"
      by simp
    from True Suc.prems(3) have "open_brackets ops (Suc p) = (p # X) @ T"
      by simp
    from Suc.IH [OF le d this] Suc.prems(4) show ?thesis
      by simp
  next
    case no: False
    show ?thesis
    proof (cases "ops ! p = CHR '']''")
      case True
      with Suc.prems(2) tk obtain d' where d': "d = Suc d'"
          "depth (take m (drop (Suc p) ops)) d' = Some e"
        by (cases d) simp_all
      with Suc.prems(4) obtain x X' where XX: "X = x # X'" "length X' = d'"
        by (cases X) auto
      with True no Suc.prems(3) have "open_brackets ops (Suc p) = X' @ T"
        by simp
      from Suc.IH [OF le d'(2) this XX(2)] show ?thesis
        by simp
    next
      case False
      with no Suc.prems(2) tk have d: "depth (take m (drop (Suc p) ops)) d = Some e"
        by simp
      from False no Suc.prems(3) have "open_brackets ops (Suc p) = X @ T"
        by simp
      from Suc.IH [OF le d this Suc.prems(4)] show ?thesis
        by simp
    qed
  qed
qed

lemma matched_innermost:
  assumes "j < length ops" "ops ! j = CHR '']''"
  shows "matched ops i j \<longleftrightarrow> open_brackets ops j \<noteq> [] \<and> hd (open_brackets ops j) = i"
proof
  assume m: "matched ops i j"
  then have ij: "i < j" and oi: "ops ! i = CHR ''[''"
    and d: "depth (take (j - Suc i) (drop (Suc i) ops)) 0 = Some 0"
    by (simp_all add: matched_def between_def)
  from oi have s: "open_brackets ops (Suc i) = [] @ (i # open_brackets ops i)"
    by simp
  from ij assms(1) have "Suc i + (j - Suc i) \<le> length ops"
    by simp
  from open_brackets_after [OF this d s] ij
  show "open_brackets ops j \<noteq> [] \<and> hd (open_brackets ops j) = i"
    by auto
next
  assume t: "open_brackets ops j \<noteq> [] \<and> hd (open_brackets ops j) = i"
  then have mem: "i \<in> set (open_brackets ops j)"
    by (cases "open_brackets ops j") auto
  with assms(1) obtain X where X: "open_brackets ops j = X @ i # open_brackets ops i"
      "depth (between ops i j) 0 = Some (length X)"
    using open_brackets_below [of j ops i] by auto
  have "X = []"
  proof (rule ccontr)
    assume "X \<noteq> []"
    then obtain x X' where XX: "X = x # X'" by (cases X) auto
    with X(1) t have "x = i" by simp
    with XX X(1) open_brackets_distinct [of ops j] show False
      by simp
  qed
  with X(2) mem assms show "matched ops i j"
    by (auto simp: matched_def dest: open_brackets_elem)
qed

subsection \<open>The handlers keep the jumps at their brackets\<close>

lemma links_ok_stack_bound: "links_ok st \<Longrightarrow> t \<in> set (loop_stack st) \<Longrightarrow> t < length (bytecode st)"
  by (simp add: links_ok_def Let_def)

lemma links_ok_back_ref:
  "links_ok st \<Longrightarrow> b < length (bytecode st) \<Longrightarrow> op (bytecode st ! b) = JUMP_BACK \<Longrightarrow>
   jump_ref (bytecode st ! b) < b"
  by (simp add: links_ok_def Let_def)

lemma map_nth_append_old:
  assumes "\<forall>t \<in> set ts. t < length src"
  shows "map ((!) (src @ ext)) ts = map ((!) src) ts"
  using assms by (simp add: nth_append)

lemma sites_ok_push_plain:
  assumes "links_ok st" "sites_ok ops st src" "oc \<noteq> JUMP_FWD" "oc \<noteq> JUMP_BACK"
  shows "sites_ok ops (push_back oc j v st) (src @ [cursor st])"
proof -
  let ?bc = "bytecode st"
  from assms(2) have len: "length src = length ?bc"
    and stk: "map ((!) src) (loop_stack st) = open_brackets ops (cursor st)"
    and f: "\<And>a. a < length ?bc \<Longrightarrow> op (?bc ! a) = JUMP_FWD \<Longrightarrow> src ! a < cursor st \<and> ops ! (src ! a) = CHR ''[''"
    and ff: "\<And>a b. b < length ?bc \<Longrightarrow> a < b \<Longrightarrow> op (?bc ! a) = JUMP_FWD \<Longrightarrow>
              op (?bc ! b) = JUMP_FWD \<Longrightarrow> src ! a < src ! b"
    and b: "\<And>b. b < length ?bc \<Longrightarrow> op (?bc ! b) = JUMP_BACK \<Longrightarrow>
              src ! b < length ops \<and> ops ! (src ! b) = CHR '']'' \<and>
              open_brackets ops (src ! b) \<noteq> [] \<and>
              hd (open_brackets ops (src ! b)) = src ! jump_ref (?bc ! b)"
    by (simp_all add: sites_ok_def Let_def)
  have bound: "\<forall>t \<in> set (loop_stack st). t < length src"
    using links_ok_stack_bound [OF assms(1)] len by simp
  have 1: "map ((!) (src @ [cursor st])) (loop_stack st) = open_brackets ops (cursor st)"
    using map_nth_append_old [OF bound] stk by simp
  have 5: "(src @ [cursor st]) ! b < length ops \<and> ops ! ((src @ [cursor st]) ! b) = CHR '']'' \<and>
      open_brackets ops ((src @ [cursor st]) ! b) \<noteq> [] \<and>
      hd (open_brackets ops ((src @ [cursor st]) ! b)) = (src @ [cursor st]) ! jump_ref (?bc ! b)"
    if "b < length ?bc" "op (?bc ! b) = JUMP_BACK" for b
  proof -
    from links_ok_back_ref [OF assms(1) that] that(1) len
    have "jump_ref (?bc ! b) < length src" by simp
    with b [OF that] that(1) len show ?thesis
      by (simp add: nth_append)
  qed
  show ?thesis
    unfolding sites_ok_def Let_def push_back_def
    using len 1 f ff 5 assms(3,4)
    by (auto simp: nth_append less_Suc_eq)
qed

lemma sites_ok_advance:
  assumes "sites_ok ops st src"
    "open_brackets ops (cursor st + d) = open_brackets ops (cursor st)"
  shows "sites_ok ops (NEXT_CHAR_N d st) src"
  using assms unfolding sites_ok_def Let_def NEXT_CHAR_N_def
  by (auto simp: trans_less_add1)

lemma sites_ok_fwd:
  assumes "links_ok st" "sites_ok ops st src" "ops ! cursor st = CHR ''[''"
  shows "sites_ok ops
     (NEXT_CHAR_N 1 (push_back JUMP_FWD 0 0 (st\<lparr>loop_stack := length (bytecode st) # loop_stack st\<rparr>)))
     (src @ [cursor st])"
proof -
  let ?bc = "bytecode st"
  from assms(2) have len: "length src = length ?bc"
    and stk: "map ((!) src) (loop_stack st) = open_brackets ops (cursor st)"
    and f: "\<And>a. a < length ?bc \<Longrightarrow> op (?bc ! a) = JUMP_FWD \<Longrightarrow> src ! a < cursor st \<and> ops ! (src ! a) = CHR ''[''"
    and ff: "\<And>a b. b < length ?bc \<Longrightarrow> a < b \<Longrightarrow> op (?bc ! a) = JUMP_FWD \<Longrightarrow>
              op (?bc ! b) = JUMP_FWD \<Longrightarrow> src ! a < src ! b"
    and b: "\<And>b. b < length ?bc \<Longrightarrow> op (?bc ! b) = JUMP_BACK \<Longrightarrow>
              src ! b < length ops \<and> ops ! (src ! b) = CHR '']'' \<and>
              open_brackets ops (src ! b) \<noteq> [] \<and>
              hd (open_brackets ops (src ! b)) = src ! jump_ref (?bc ! b)"
    by (simp_all add: sites_ok_def Let_def)
  have bound: "\<forall>t \<in> set (loop_stack st). t < length src"
    using links_ok_stack_bound [OF assms(1)] len by simp
  have 1: "map ((!) (src @ [cursor st])) (loop_stack st) = open_brackets ops (cursor st)"
    using map_nth_append_old [OF bound] stk by simp
  have 5: "(src @ [cursor st]) ! b < length ops \<and> ops ! ((src @ [cursor st]) ! b) = CHR '']'' \<and>
      open_brackets ops ((src @ [cursor st]) ! b) \<noteq> [] \<and>
      hd (open_brackets ops ((src @ [cursor st]) ! b)) = (src @ [cursor st]) ! jump_ref (?bc ! b)"
    if "b < length ?bc" "op (?bc ! b) = JUMP_BACK" for b
  proof -
    from links_ok_back_ref [OF assms(1) that] that(1) len
    have "jump_ref (?bc ! b) < length src" by simp
    with b [OF that] that(1) len show ?thesis
      by (simp add: nth_append)
  qed
  show ?thesis
    unfolding sites_ok_def Let_def push_back_def NEXT_CHAR_N_def
    using len 1 f ff 5 assms(3)
    by (auto simp: nth_append less_Suc_eq)
qed

lemma open_brackets_skip:
  assumes "\<forall>q < m. ops ! (i + q) \<noteq> CHR ''['' \<and> ops ! (i + q) \<noteq> CHR '']''"
  shows "open_brackets ops (i + m) = open_brackets ops i"
  using assms by (induction m) simp_all

lemma open_brackets_loop:
  assumes "ops ! i = CHR ''[''"
    "\<forall>q < m. ops ! (Suc i + q) \<noteq> CHR ''['' \<and> ops ! (Suc i + q) \<noteq> CHR '']''"
    "ops ! (Suc i + m) = CHR '']''"
  shows "open_brackets ops (Suc (Suc i + m)) = open_brackets ops i"
proof -
  from assms(1) have "open_brackets ops (Suc i) = i # open_brackets ops i"
    by simp
  with open_brackets_skip [OF assms(2)] have "open_brackets ops (Suc i + m) = i # open_brackets ops i"
    by simp
  with assms(3) show ?thesis
    by simp
qed

lemma count_loop_chars:
  assumes "\<forall>q < k. ops ! (i + q) = c"
  shows "\<forall>q < count_loop ops i c k. ops ! (i + q) = c"
  using assms
proof (induction ops i c k rule: count_loop.induct)
  case (1 ops start target count)
  show ?case
  proof (cases "start + count < length ops \<and> ops ! (start + count) = target")
    case True
    then have eq: "count_loop ops start target count = count_loop ops start target (count + 1)"
      by (subst count_loop.simps) simp
    from True "1.prems" have "\<forall>q < count + 1. ops ! (start + q) = target"
      by (auto simp: less_Suc_eq)
    from "1.IH" [OF True this] eq show ?thesis by simp
  next
    case False
    then have "count_loop ops start target count = count"
      by (subst count_loop.simps) auto
    with "1.prems" show ?thesis by simp
  qed
qed

lemma count_repeated_chars_chars:
  assumes "ops ! i = c"
  shows "\<forall>q < count_repeated_chars ops i c. ops ! (i + q) = c"
  unfolding count_repeated_chars_def
  by (rule count_loop_chars) (use assms in \<open>simp add: less_Suc_eq\<close>)

lemma plus_minus_loop_chars:
  assumes "plus_minus_loop ops s acc = (v, k)"
  shows "\<forall>q. s \<le> q \<and> q < k \<longrightarrow> ops ! q = CHR ''+'' \<or> ops ! q = CHR ''-''"
  using assms
proof (induction ops s acc rule: plus_minus_loop.induct)
  case (1 ops k0 acc)
  show ?case
  proof (cases "k0 < length ops \<and> (ops ! k0 = CHR ''+'' \<or> ops ! k0 = CHR ''-'')")
    case True
    then have "plus_minus_loop ops k0 acc =
        plus_minus_loop ops (k0 + 1) (acc + (if ops ! k0 = CHR ''+'' then 1 else - 1))"
      by (subst plus_minus_loop.simps) simp
    with "1.prems" have "plus_minus_loop ops (k0 + 1) (acc + (if ops ! k0 = CHR ''+'' then 1 else - 1)) = (v, k)"
      by simp
    from "1.IH" [OF True this]
    have IH: "\<And>q. k0 + 1 \<le> q \<Longrightarrow> q < k \<Longrightarrow> ops ! q = CHR ''+'' \<or> ops ! q = CHR ''-''"
      by simp
    show ?thesis
    proof (intro allI impI)
      fix q
      assume q: "k0 \<le> q \<and> q < k"
      show "ops ! q = CHR ''+'' \<or> ops ! q = CHR ''-''"
      proof (cases "q = k0")
        case True
        with \<open>k0 < length ops \<and> (ops ! k0 = CHR ''+'' \<or> ops ! k0 = CHR ''-'')\<close> show ?thesis
          by simp
      next
        case False
        with q have "k0 + 1 \<le> q" by simp
        then show ?thesis using q by (simp add: IH)
      qed
    qed
  next
    case False
    then have "plus_minus_loop ops k0 acc = (acc, k0)"
      by (subst plus_minus_loop.simps) auto
    with "1.prems" show ?thesis by auto
  qed
qed

lemma sites_ok_back:
  assumes "links_ok st" "sites_ok ops st src" "cursor st < length ops" "ops ! cursor st = CHR '']''"
  shows "sites_ok ops (parse_jmp_back st)
           (src @ replicate (length (bytecode (parse_jmp_back st)) - length (bytecode st)) (cursor st))"
proof (cases "loop_stack st")
  case Nil
  with assms(2) have "open_brackets ops (cursor st) = []"
    by (simp add: sites_ok_def Let_def)
  with assms(4) have "open_brackets ops (cursor st + 1) = open_brackets ops (cursor st)"
    by simp
  from sites_ok_advance [OF assms(2) this] Nil show ?thesis
    by (simp add: parse_jmp_back_def NEXT_CHAR_N_def)
next
  case (Cons t rest)
  let ?bc = "bytecode st"
  let ?n = "length ?bc"
  let ?j = "cursor st"
  define bc' where "bc' = ?bc[t := (?bc ! t)\<lparr>jump_ref := ?n\<rparr>] @
      [\<lparr>op = JUMP_BACK, jump_ref = t, value = 0\<rparr>]"
  define src' where "src' = src @ [?j]"
  from assms(2) have len: "length src = ?n"
    and stk: "map ((!) src) (loop_stack st) = open_brackets ops ?j"
    and f: "\<And>a. a < ?n \<Longrightarrow> op (?bc ! a) = JUMP_FWD \<Longrightarrow> src ! a < ?j \<and> ops ! (src ! a) = CHR ''[''"
    and ff: "\<And>a b. b < ?n \<Longrightarrow> a < b \<Longrightarrow> op (?bc ! a) = JUMP_FWD \<Longrightarrow>
              op (?bc ! b) = JUMP_FWD \<Longrightarrow> src ! a < src ! b"
    and b: "\<And>b. b < ?n \<Longrightarrow> op (?bc ! b) = JUMP_BACK \<Longrightarrow>
              src ! b < length ops \<and> ops ! (src ! b) = CHR '']'' \<and>
              open_brackets ops (src ! b) \<noteq> [] \<and>
              hd (open_brackets ops (src ! b)) = src ! jump_ref (?bc ! b)"
    by (simp_all add: sites_ok_def Let_def)
  from assms(1) Cons have t: "t < ?n" "op (?bc ! t) = JUMP_FWD"
    and rest: "\<forall>u \<in> set rest. u < ?n"
    by (simp_all add: links_ok_def Let_def)
  have len': "length bc' = Suc ?n" "length src' = Suc ?n"
    using len by (simp_all add: bc'_def src'_def)
  have op_same: "op (bc' ! k) = op (?bc ! k)" if "k < ?n" for k
    using that by (cases "k = t") (simp_all add: bc'_def nth_append)
  have other: "bc' ! k = ?bc ! k" if "k < ?n" "k \<noteq> t" for k
    using that by (simp add: bc'_def nth_append)
  have at_n: "bc' ! ?n = \<lparr>op = JUMP_BACK, jump_ref = t, value = 0\<rparr>"
    by (simp add: bc'_def nth_append)
  have src_old: "src' ! k = src ! k" if "k < ?n" for k
    using that len by (simp add: src'_def nth_append)
  have src_new: "src' ! ?n = ?j"
    using len by (simp add: src'_def nth_append)
  from stk Cons have top: "open_brackets ops ?j = src ! t # map ((!) src) rest"
    by simp
  have 1: "map ((!) src') rest = open_brackets ops (Suc ?j)"
  proof -
    have "map ((!) src') rest = map ((!) src) rest"
      unfolding src'_def by (rule map_nth_append_old) (use rest len in simp)
    with top assms(4) show ?thesis by simp
  qed
  have 2: "src' ! a < Suc ?j \<and> ops ! (src' ! a) = CHR ''[''" if "a < Suc ?n" "op (bc' ! a) = JUMP_FWD" for a
  proof -
    from that at_n have an: "a < ?n" by (cases "a = ?n") simp_all
    with that(2) have "op (?bc ! a) = JUMP_FWD" by (simp add: op_same)
    from f [OF an this] an show ?thesis by (simp add: src_old)
  qed
  have 3: "src' ! a < src' ! b'" if "b' < Suc ?n" "a < b'" "op (bc' ! a) = JUMP_FWD"
      "op (bc' ! b') = JUMP_FWD" for a b'
  proof -
    from that(1,4) at_n have bn: "b' < ?n" by (cases "b' = ?n") simp_all
    with that(2) have an: "a < ?n" by simp
    from that(3,4) an bn have "op (?bc ! a) = JUMP_FWD" "op (?bc ! b') = JUMP_FWD"
      by (simp_all add: op_same)
    from ff [OF bn that(2) this] an bn show ?thesis by (simp add: src_old)
  qed
  have 4: "src' ! b' < length ops \<and> ops ! (src' ! b') = CHR '']'' \<and>
      open_brackets ops (src' ! b') \<noteq> [] \<and>
      hd (open_brackets ops (src' ! b')) = src' ! jump_ref (bc' ! b')"
    if "b' < Suc ?n" "op (bc' ! b') = JUMP_BACK" for b'
  proof (cases "b' = ?n")
    case True
    with at_n src_new top t(1) assms(3,4) show ?thesis
      by (simp add: src_old)
  next
    case False
    with that(1) have bn: "b' < ?n" by simp
    with that(2) have jb: "op (?bc ! b') = JUMP_BACK" by (simp add: op_same)
    with t(2) have "b' \<noteq> t" by auto
    with bn have eq: "bc' ! b' = ?bc ! b'" by (simp add: other)
    from links_ok_back_ref [OF assms(1) bn jb] bn have "jump_ref (?bc ! b') < ?n"
      by simp
    with b [OF bn jb] eq bn show ?thesis
      by (simp add: src_old)
  qed
  have "parse_jmp_back st = NEXT_CHAR_N 1 (st\<lparr>bytecode := bc', loop_stack := rest\<rparr>)"
    using Cons by (simp add: parse_jmp_back_def push_back_def Let_def bc'_def)
  moreover have "sites_ok ops (NEXT_CHAR_N 1 (st\<lparr>bytecode := bc', loop_stack := rest\<rparr>)) src'"
    unfolding sites_ok_def Let_def NEXT_CHAR_N_def
    using len' 1 2 3 4 by simp
  moreover have "length bc' - ?n = 1"
    using len' by simp
  ultimately show ?thesis
    by (simp add: src'_def NEXT_CHAR_N_def)
qed

lemma sites_ok_run:
  assumes "links_ok st" "sites_ok ops st src" "ops ! cursor st = c"
    "c \<noteq> CHR ''[''" "c \<noteq> CHR '']''" "d \<le> count_repeated_chars ops (cursor st) c"
    "oc \<noteq> JUMP_FWD" "oc \<noteq> JUMP_BACK"
  shows "sites_ok ops (NEXT_CHAR_N d (push_back oc j v st)) (src @ [cursor st])"
proof (rule sites_ok_advance)
  show "sites_ok ops (push_back oc j v st) (src @ [cursor st])"
    using assms(1,2,7,8) by (rule sites_ok_push_plain)
  from count_repeated_chars_chars [OF assms(3)] assms(4,5,6)
  have "\<forall>q < d. ops ! (cursor st + q) \<noteq> CHR ''['' \<and> ops ! (cursor st + q) \<noteq> CHR '']''"
    by auto
  then show "open_brackets ops (cursor (push_back oc j v st) + d) =
      open_brackets ops (cursor (push_back oc j v st))"
    by (simp add: open_brackets_skip)
qed

lemma sites_ok_one:
  assumes "links_ok st" "sites_ok ops st src"
    "ops ! cursor st \<noteq> CHR ''[''" "ops ! cursor st \<noteq> CHR '']''"
    "oc \<noteq> JUMP_FWD" "oc \<noteq> JUMP_BACK"
  shows "sites_ok ops (NEXT_CHAR_N 1 (push_back oc j v st)) (src @ [cursor st])"
    and "sites_ok ops (NEXT_CHAR_N 1 st) src"
proof -
  have s: "open_brackets ops (cursor st + 1) = open_brackets ops (cursor st)"
    using assms(3,4) by simp
  show "sites_ok ops (NEXT_CHAR_N 1 st) src"
    using assms(2) s by (rule sites_ok_advance)
  show "sites_ok ops (NEXT_CHAR_N 1 (push_back oc j v st)) (src @ [cursor st])"
    by (rule sites_ok_advance) (use assms s in \<open>simp_all add: sites_ok_push_plain\<close>)
qed

lemma set_zero_brackets:
  assumes "is_set_zero_pattern ops i"
  shows "open_brackets ops (i + 3) = open_brackets ops i"
proof -
  from assms have c: "ops ! i = CHR ''[''" "ops ! (i + 1) = CHR ''-'' \<or> ops ! (i + 1) = CHR ''+''"
      "ops ! (i + 2) = CHR '']''"
    by (auto simp: is_set_zero_pattern_def split: if_splits)
  have e: "Suc (Suc i + 1) = i + 3" by simp
  show ?thesis
    unfolding e [symmetric]
    by (rule open_brackets_loop) (use c in \<open>auto simp: less_Suc_eq\<close>)
qed

lemma set_value_brackets:
  assumes "found (is_set_value_pattern ops i)"
  shows "open_brackets ops (i + len_of_pattern (is_set_value_pattern ops i)) = open_brackets ops i"
proof -
  obtain v k where pm: "plus_minus_loop ops (i + 3) 0 = (v, k)"
    by (cases "plus_minus_loop ops (i + 3) 0")
  from assms pm have c: "ops ! i = CHR ''[''" "ops ! (i + 1) = CHR ''-''" "ops ! (i + 2) = CHR '']''"
    and len: "len_of_pattern (is_set_value_pattern ops i) = k - i"
    by (auto simp: is_set_value_pattern_def not_found_def split: if_splits)
  from plus_minus_loop_ge [of "i + 3" ops 0] pm have ge: "i + 3 \<le> k" by simp
  have e: "Suc (Suc i + 1) = i + 3" by simp
  have 3: "open_brackets ops (i + 3) = open_brackets ops i"
    unfolding e [symmetric]
    by (rule open_brackets_loop) (use c in \<open>auto simp: less_Suc_eq\<close>)
  have "\<forall>q < k - (i + 3). ops ! (i + 3 + q) \<noteq> CHR ''['' \<and> ops ! (i + 3 + q) \<noteq> CHR '']''"
  proof (intro allI impI)
    fix q assume "q < k - (i + 3)"
    then have "i + 3 \<le> i + 3 + q \<and> i + 3 + q < k" by simp
    with plus_minus_loop_chars [OF pm] have "ops ! (i + 3 + q) = CHR ''+'' \<or> ops ! (i + 3 + q) = CHR ''-''"
      by blast
    then show "ops ! (i + 3 + q) \<noteq> CHR ''['' \<and> ops ! (i + 3 + q) \<noteq> CHR '']''"
      by auto
  qed
  then have "open_brackets ops (i + 3 + (k - (i + 3))) = open_brackets ops (i + 3)"
    by (rule open_brackets_skip)
  moreover have "i + 3 + (k - (i + 3)) = i + (k - i)"
    using ge by simp
  ultimately show ?thesis
    using 3 len by simp
qed

lemma add_to_next_brackets:
  assumes "is_add_to_next_pattern ops i = Inr True"
  shows "open_brackets ops (i + 6) = open_brackets ops i"
proof -
  from assms have c: "ops ! i = CHR ''[''" "ops ! (i + 1) = CHR ''-''" "ops ! (i + 2) = CHR ''>''"
      "ops ! (i + 3) = CHR ''+''" "ops ! (i + 4) = CHR ''<''" "ops ! (i + 5) = CHR '']''"
    by (auto simp: is_add_to_next_pattern_def split: if_splits)
  have e: "Suc (Suc i + 4) = i + 6" by simp
  show ?thesis
    unfolding e [symmetric]
  proof (rule open_brackets_loop)
    show "ops ! i = CHR ''[''" by (rule c)
    show "ops ! (Suc i + 4) = CHR '']''" using c(6) by (simp add: add.commute)
    show "\<forall>q < 4. ops ! (Suc i + q) \<noteq> CHR ''['' \<and> ops ! (Suc i + q) \<noteq> CHR '']''"
    proof (intro allI impI)
      fix q :: nat assume "q < 4"
      then consider "q = 0" | "q = 1" | "q = 2" | "q = 3" by linarith
      then show "ops ! (Suc i + q) \<noteq> CHR ''['' \<and> ops ! (Suc i + q) \<noteq> CHR '']''"
        using c by cases (simp_all add: numeral_eq_Suc)
    qed
  qed
qed

lemma multiply_move_brackets:
  assumes "found (is_multiply_move_pattern ops i)"
  shows "open_brackets ops (i + len_of_pattern (is_multiply_move_pattern ops i)) = open_brackets ops i"
proof -
  obtain v k where pm: "plus_minus_loop ops (i + 3) 0 = (v, k)"
    by (cases "plus_minus_loop ops (i + 3) 0")
  from assms pm have c: "ops ! i = CHR ''[''" "ops ! (i + 1) = CHR ''-''" "ops ! (i + 2) = CHR ''>''"
      "ops ! k = CHR ''<''" "ops ! (k + 1) = CHR '']''"
    and len: "len_of_pattern (is_multiply_move_pattern ops i) = k + 2 - i"
    by (auto simp: is_multiply_move_pattern_def not_found_def split: if_splits)
  from plus_minus_loop_ge [of "i + 3" ops 0] pm have ge: "i + 3 \<le> k" by simp
  have e: "Suc (Suc i + (k - i)) = i + (k + 2 - i)"
    using ge by simp
  show ?thesis
    unfolding len e [symmetric]
  proof (rule open_brackets_loop)
    show "ops ! i = CHR ''[''" by (rule c)
    show "ops ! (Suc i + (k - i)) = CHR '']''" using c(5) ge by simp
    show "\<forall>q < k - i. ops ! (Suc i + q) \<noteq> CHR ''['' \<and> ops ! (Suc i + q) \<noteq> CHR '']''"
    proof (intro allI impI)
      fix q assume q: "q < k - i"
      consider "q = 0" | "q = 1" | "i + 3 \<le> Suc i + q \<and> Suc i + q < k" | "Suc i + q = k"
        using q by linarith
      then show "ops ! (Suc i + q) \<noteq> CHR ''['' \<and> ops ! (Suc i + q) \<noteq> CHR '']''"
      proof cases
        case 1
        with c show ?thesis by simp
      next
        case 2
        with c show ?thesis by simp
      next
        case 3
        with plus_minus_loop_chars [OF pm]
        have "ops ! (Suc i + q) = CHR ''+'' \<or> ops ! (Suc i + q) = CHR ''-''" by blast
        then show ?thesis by auto
      next
        case 4
        with c show ?thesis by simp
      qed
    qed
  qed
qed

lemma sites_ok_parse_jmp_fwd:
  assumes "links_ok st" "sites_ok ops st src" "ops ! cursor st = CHR ''[''"
    "parse_jmp_fwd ops st = Inr st'"
  shows "sites_ok ops st'
           (src @ replicate (length (bytecode st') - length (bytecode st)) (cursor st))"
proof -
  let ?i = "cursor st"
  define st1 where "st1 =
    (if found (is_scan_pattern ops ?i)
     then (if val (is_scan_pattern ops ?i) \<noteq> 0 then push_back SCAN_RIGHT 0 0 st
           else push_back SCAN_LEFT 0 0 st)
     else st)"
  define src1 where "src1 = (if found (is_scan_pattern ops ?i) then src @ [?i] else src)"
  have l1: "links_ok st1"
    unfolding st1_def using assms(1) by (simp add: links_ok_push_plain)
  have c1: "cursor st1 = ?i"
    unfolding st1_def by (simp add: push_back_def)
  have s1: "sites_ok ops st1 src1"
    unfolding st1_def src1_def using assms(1,2) by (simp add: sites_ok_push_plain)
  have n1: "length (bytecode st1) - length (bytecode st) = (if found (is_scan_pattern ops ?i) then 1 else 0)"
    unfolding st1_def by (simp add: push_back_def)
  have r1: "src @ replicate (Suc (length (bytecode st1)) - length (bytecode st)) ?i = src1 @ [?i]"
    unfolding st1_def src1_def by (simp add: push_back_def Suc_diff_le)
  have b1: "length (bytecode st) \<le> length (bytecode st1)"
    unfolding st1_def by (simp add: push_back_def)
  show ?thesis
  proof (cases "found (is_set_value_pattern ops ?i)")
    case True
    with assms(4) have st': "st' = NEXT_CHAR_N (len_of_pattern (is_set_value_pattern ops ?i))
        (push_back SET_VAL 0 (val (is_set_value_pattern ops ?i)) st)"
      by (simp add: parse_jmp_fwd_def Let_def)
    have "sites_ok ops st' (src @ [?i])"
      unfolding st'
      by (rule sites_ok_advance)
        (use assms(1,2) True in \<open>simp_all add: sites_ok_push_plain set_value_brackets\<close>)
    then show ?thesis
      by (simp add: st' push_back_def NEXT_CHAR_N_def)
  next
    case nv: False
    show ?thesis
    proof (cases "is_set_zero_pattern ops ?i")
      case True
      with nv assms(4) have st': "st' = NEXT_CHAR_N 3 (push_back SET_ZERO 0 0 st)"
        by (simp add: parse_jmp_fwd_def Let_def)
      have "sites_ok ops st' (src @ [?i])"
        unfolding st'
        by (rule sites_ok_advance)
          (use assms(1,2) True in \<open>simp_all add: sites_ok_push_plain set_zero_brackets\<close>)
      then show ?thesis
        by (simp add: st' push_back_def NEXT_CHAR_N_def)
    next
      case nz: False
      from nv nz assms(4) have rest: "(case is_add_to_next_pattern ops ?i of
            Inl e \<Rightarrow> Inl e
          | Inr True \<Rightarrow> Inr (NEXT_CHAR_N 6 (push_back ADD_TO_NEXT 0 0 st1))
          | Inr False \<Rightarrow>
              (let pattern = is_multiply_move_pattern ops ?i in
               if found pattern
               then Inr (NEXT_CHAR_N (len_of_pattern pattern)
                          (push_back MULTIPLY_MV 0 (val pattern) st1))
               else Inr (NEXT_CHAR_N 1
                          (push_back JUMP_FWD 0 0
                            (st1\<lparr>loop_stack := length (bytecode st1) # loop_stack st1\<rparr>))))) = Inr st'"
        unfolding parse_jmp_fwd_def Let_def st1_def [symmetric] c1 by simp
      show ?thesis
      proof (cases "is_add_to_next_pattern ops ?i")
        case (Inl e)
        with rest show ?thesis by simp
      next
        case (Inr found_it)
        show ?thesis
        proof (cases found_it)
          case True
          with Inr rest have st': "st' = NEXT_CHAR_N 6 (push_back ADD_TO_NEXT 0 0 st1)"
            by simp
          from Inr True c1 have a1: "is_add_to_next_pattern ops (cursor st1) = Inr True"
            by simp
          have "sites_ok ops st' (src1 @ [cursor st1])"
            unfolding st'
            by (rule sites_ok_advance)
              (use l1 s1 a1 in \<open>simp_all add: sites_ok_push_plain add_to_next_brackets\<close>)
          moreover have "length (bytecode st') = Suc (length (bytecode st1))"
            by (simp add: st' push_back_def NEXT_CHAR_N_def)
          ultimately show ?thesis
            using r1 c1 by simp
        next
          case False
          note na = this
          show ?thesis
          proof (cases "found (is_multiply_move_pattern ops ?i)")
            case True
            with na Inr rest have st': "st' = NEXT_CHAR_N (len_of_pattern (is_multiply_move_pattern ops ?i))
                (push_back MULTIPLY_MV 0 (val (is_multiply_move_pattern ops ?i)) st1)"
              by (simp add: Let_def)
            from True c1 have m1: "found (is_multiply_move_pattern ops (cursor st1))"
              by simp
            have "sites_ok ops st' (src1 @ [cursor st1])"
              unfolding st' c1 [symmetric]
              by (rule sites_ok_advance)
                (use l1 s1 m1 in \<open>simp_all add: sites_ok_push_plain multiply_move_brackets\<close>)
            moreover have "length (bytecode st') = Suc (length (bytecode st1))"
              by (simp add: st' push_back_def NEXT_CHAR_N_def)
            ultimately show ?thesis
              using r1 c1 by simp
          next
            case False
            with na Inr rest have st': "st' = NEXT_CHAR_N 1 (push_back JUMP_FWD 0 0
                (st1\<lparr>loop_stack := length (bytecode st1) # loop_stack st1\<rparr>))"
              by (simp add: Let_def)
            have "sites_ok ops st' (src1 @ [cursor st1])"
              unfolding st' using l1 s1 by (rule sites_ok_fwd) (simp add: c1 assms(3))
            moreover have "length (bytecode st') = Suc (length (bytecode st1))"
              by (simp add: st' push_back_def NEXT_CHAR_N_def)
            ultimately show ?thesis
              using r1 c1 by simp
          qed
        qed
      qed
    qed
  qed
qed

lemma sites_ok_dispatch:
  assumes "links_ok st" "sites_ok ops st src" "cursor st < length ops" "dispatch ops st = Inr st'"
  shows "sites_ok ops st'
           (src @ replicate (length (bytecode st') - length (bytecode st)) (cursor st))"
proof -
  let ?i = "cursor st"
  let ?c = "ops ! ?i"
  have run: "sites_ok ops (NEXT_CHAR_N (unat (of_nat (count_repeated_chars ops ?i ?c) :: 16 word))
      (push_back oc j v st)) (src @ [?i])"
    if "?c \<noteq> CHR ''[''" "?c \<noteq> CHR '']''" "oc \<noteq> JUMP_FWD" "oc \<noteq> JUMP_BACK" for oc j v
    using assms(1,2) refl that(1,2) unat_of_nat_16_le that(3,4) by (rule sites_ok_run)
  have grow1: "length (bytecode (NEXT_CHAR_N d (push_back oc j v st))) - length (bytecode st) = 1"
    for d oc j v
    by (simp add: NEXT_CHAR_N_def push_back_def)
  consider "?c = CHR ''>''" | "?c = CHR ''<''" | "?c = CHR ''+''" | "?c = CHR ''-''"
    | "?c = CHR ''.''" | "?c = CHR '',''" | "?c = CHR ''[''" | "?c = CHR '']''"
    | "?c \<notin> set ''><+-.,[]''"
    by auto
  then show ?thesis
  proof cases
    case 1
    with assms(4) have st': "st' = parse_mv_right ops st" by (simp add: dispatch_def)
    from run [of MV_POS] 1 show ?thesis
      unfolding st' parse_mv_right_def Let_def by (simp add: grow1)
  next
    case 2
    with assms(4) have st': "st' = parse_mv_left ops st" by (simp add: dispatch_def)
    from run [of MV_POS] 2 show ?thesis
      unfolding st' parse_mv_left_def Let_def by (simp add: grow1)
  next
    case 3
    with assms(4) have st': "st' = parse_inc_val ops st" by (simp add: dispatch_def)
    from run [of ADD_VAL] 3 show ?thesis
      unfolding st' parse_inc_val_def Let_def by (simp add: grow1)
  next
    case 4
    with assms(4) have st': "st' = parse_dec_val ops st" by (simp add: dispatch_def)
    from run [of ADD_VAL] 4 show ?thesis
      unfolding st' parse_dec_val_def Let_def by (simp add: grow1)
  next
    case 5
    with assms(4) have st': "st' = parse_output st" by (simp add: dispatch_def)
    from sites_ok_one(1) [OF assms(1,2), of OUTPUT] 5 show ?thesis
      unfolding st' parse_output_def by (simp add: grow1)
  next
    case 6
    with assms(4) have st': "st' = parse_input st" by (simp add: dispatch_def)
    from sites_ok_one(1) [OF assms(1,2), of INPUT] 6 show ?thesis
      unfolding st' parse_input_def by (simp add: grow1)
  next
    case 7
    with assms(4) have "parse_jmp_fwd ops st = Inr st'" by (simp add: dispatch_def)
    with assms(1,2) 7 show ?thesis by (rule sites_ok_parse_jmp_fwd)
  next
    case 8
    with assms(4) have st': "st' = parse_jmp_back st" by (simp add: dispatch_def)
    from sites_ok_back [OF assms(1,2,3) 8] show ?thesis
      unfolding st' .
  next
    case 9
    with assms(4) have st': "st' = parse_unknown st" by (auto simp: dispatch_def)
    from 9 have "?c \<noteq> CHR ''[''" "?c \<noteq> CHR '']''" by auto
    from sites_ok_one(2) [OF assms(1,2) this, of OUTPUT] show ?thesis
      unfolding st' parse_unknown_def by (simp add: NEXT_CHAR_N_def)
  qed
qed

lemma sites_ok_initial: "sites_ok ops \<lparr>bytecode = [], loop_stack = [], cursor = 0\<rparr> []"
  by (simp add: sites_ok_def)

lemma compile_loop_sites:
  assumes "compile_loop ops st = Some r"
  shows "\<forall>src bc. r = Inr bc \<longrightarrow> links_ok st \<longrightarrow> sites_ok ops st src \<longrightarrow> cursor st < length ops \<longrightarrow>
           (\<exists>src' st'. sites_loop ops st src = Some (Inr src') \<and> bytecode st' = bc \<and>
                        links_ok st' \<and> sites_ok ops st' src')"
proof (rule compile_loop.raw_induct
    [where P = "\<lambda>ops st r. \<forall>src bc. r = Inr bc \<longrightarrow> links_ok st \<longrightarrow> sites_ok ops st src \<longrightarrow>
           cursor st < length ops \<longrightarrow>
           (\<exists>src' st'. sites_loop ops st src = Some (Inr src') \<and> bytecode st' = bc \<and>
                        links_ok st' \<and> sites_ok ops st' src')", OF _ assms])
  fix loop :: "string \<Rightarrow> cstate \<Rightarrow> (fault + Instruction list) option"
  fix ops st r
  assume IH: "\<And>ops st r. loop ops st = Some r \<Longrightarrow>
      \<forall>src bc. r = Inr bc \<longrightarrow> links_ok st \<longrightarrow> sites_ok ops st src \<longrightarrow> cursor st < length ops \<longrightarrow>
           (\<exists>src' st'. sites_loop ops st src = Some (Inr src') \<and> bytecode st' = bc \<and>
                        links_ok st' \<and> sites_ok ops st' src')"
  assume body: "(case dispatch ops st of Inl e \<Rightarrow> Some (Inl e)
      | Inr st' \<Rightarrow> if cursor st' < length ops then loop ops st' else Some (Inr (bytecode st'))) = Some r"
  show "\<forall>src bc. r = Inr bc \<longrightarrow> links_ok st \<longrightarrow> sites_ok ops st src \<longrightarrow> cursor st < length ops \<longrightarrow>
           (\<exists>src' st'. sites_loop ops st src = Some (Inr src') \<and> bytecode st' = bc \<and>
                        links_ok st' \<and> sites_ok ops st' src')"
  proof (intro allI impI)
    fix src bc
    assume r: "r = Inr bc" and l: "links_ok st" and s: "sites_ok ops st src"
      and c: "cursor st < length ops"
    show "\<exists>src' st'. sites_loop ops st src = Some (Inr src') \<and> bytecode st' = bc \<and>
                        links_ok st' \<and> sites_ok ops st' src'"
    proof (cases "dispatch ops st")
      case (Inl e)
      with body r show ?thesis by simp
    next
      case (Inr st1)
      define src1 where "src1 = src @ replicate (length (bytecode st1) - length (bytecode st)) (cursor st)"
      from l Inr have l1: "links_ok st1" by (rule links_ok_dispatch)
      from l s c Inr have s1: "sites_ok ops st1 src1"
        unfolding src1_def by (rule sites_ok_dispatch)
      show ?thesis
      proof (cases "cursor st1 < length ops")
        case True
        with body Inr have "loop ops st1 = Some r" by simp
        from IH [OF this] r l1 s1 True
        obtain src' st' where "sites_loop ops st1 src1 = Some (Inr src')" "bytecode st' = bc"
            "links_ok st'" "sites_ok ops st' src'"
          by blast
        moreover have "sites_loop ops st src = sites_loop ops st1 src1"
          using Inr True by (simp add: sites_loop.simps [of ops st] src1_def)
        ultimately show ?thesis by auto
      next
        case False
        with body Inr r have "bytecode st1 = bc" by simp
        moreover have "sites_loop ops st src = Some (Inr src1)"
          using Inr False by (simp add: sites_loop.simps [of ops st] src1_def)
        ultimately show ?thesis
          using l1 s1 by auto
      qed
    qed
  qed
qed

lemma sites_ok_linked:
  assumes "links_ok st" "sites_ok ops st src"
    "a < length (bytecode st)" "b < length (bytecode st)"
    "op (bytecode st ! a) = JUMP_FWD" "op (bytecode st ! b) = JUMP_BACK"
  shows "matched ops (src ! a) (src ! b) \<longleftrightarrow>
           jump_ref (bytecode st ! a) = b \<and> jump_ref (bytecode st ! b) = a"
proof -
  let ?bc = "bytecode st"
  let ?a' = "jump_ref (?bc ! b)"
  from assms(2) have
    ff: "\<And>a b. b < length ?bc \<Longrightarrow> a < b \<Longrightarrow> op (?bc ! a) = JUMP_FWD \<Longrightarrow>
              op (?bc ! b) = JUMP_FWD \<Longrightarrow> src ! a < src ! b"
    and bk: "\<And>b. b < length ?bc \<Longrightarrow> op (?bc ! b) = JUMP_BACK \<Longrightarrow>
              src ! b < length ops \<and> ops ! (src ! b) = CHR '']'' \<and>
              open_brackets ops (src ! b) \<noteq> [] \<and>
              hd (open_brackets ops (src ! b)) = src ! jump_ref (?bc ! b)"
    by (simp_all add: sites_ok_def Let_def)
  from bk [OF assms(4,6)] have sb: "src ! b < length ops" "ops ! (src ! b) = CHR '']''"
      "open_brackets ops (src ! b) \<noteq> []" "hd (open_brackets ops (src ! b)) = src ! ?a'"
    by simp_all
  from assms(1,4,6) have lk: "?a' < b" "op (?bc ! ?a') = JUMP_FWD" "jump_ref (?bc ! ?a') = b"
    by (simp_all add: links_ok_def Let_def)
  note inner = matched_innermost [OF sb(1,2)]
  show ?thesis
  proof
    assume "matched ops (src ! a) (src ! b)"
    with inner sb(4) have eq: "src ! a = src ! ?a'"
      by simp
    have "a = ?a'"
    proof (rule ccontr)
      assume "a \<noteq> ?a'"
      then consider "a < ?a'" | "?a' < a" by linarith
      then show False
      proof cases
        case 1
        from lk(1) assms(4) have "?a' < length ?bc" by simp
        from ff [OF this 1 assms(5) lk(2)] eq show False by simp
      next
        case 2
        from ff [OF assms(3) 2 lk(2) assms(5)] eq show False by simp
      qed
    qed
    with lk(3) show "jump_ref (?bc ! a) = b \<and> jump_ref (?bc ! b) = a"
      by simp
  next
    assume "jump_ref (?bc ! a) = b \<and> jump_ref (?bc ! b) = a"
    with sb(3,4) inner show "matched ops (src ! a) (src ! b)"
      by simp
  qed
qed

text \<open>
  C6.  In every sequence the compiler returns, each instruction has the position of the
  source it was made at (\<open>sites\<close>): a \<open>JumpForward\<close> comes from a \<open>[\<close> and a
  \<open>JumpBackward\<close> from a \<open>]\<close>.  For a \<open>JumpForward\<close> at index \<open>a\<close> and a
  \<open>JumpBackward\<close> at index \<open>b\<close>, the two brackets match in the source exactly when
  the target of the \<open>JumpForward\<close> is \<open>b\<close> and the target of the \<open>JumpBackward\<close> is
  \<open>a\<close>.
\<close>

theorem compiled_jumps_mutually_linked:
  assumes "compile ops = Some (Inr bc)"
  shows "\<exists>src. sites ops = Some (Inr src) \<and> length src = length bc \<and>
           (\<forall>a < length bc. op (bc ! a) = JUMP_FWD \<longrightarrow> ops ! (src ! a) = CHR ''['') \<and>
           (\<forall>b < length bc. op (bc ! b) = JUMP_BACK \<longrightarrow> ops ! (src ! b) = CHR '']'') \<and>
           (\<forall>a < length bc. \<forall>b < length bc.
              op (bc ! a) = JUMP_FWD \<and> op (bc ! b) = JUMP_BACK \<longrightarrow>
                (matched ops (src ! a) (src ! b) \<longleftrightarrow>
                   jump_ref (bc ! a) = b \<and> jump_ref (bc ! b) = a))"
proof (cases "ops = []")
  case True
  with assms have "bc = []" by (simp add: compile_def)
  with True show ?thesis by (simp add: sites_def)
next
  case False
  let ?init = "\<lparr>bytecode = [], loop_stack = [], cursor = 0\<rparr>"
  from False assms have run: "compile_loop ops ?init = Some (Inr bc)"
    by (simp add: compile_def)
  from False have "cursor ?init < length ops" by simp
  with compile_loop_sites [OF run] links_ok_initial sites_ok_initial [of ops]
  obtain src st' where fin: "sites_loop ops ?init [] = Some (Inr src)" "bytecode st' = bc"
      "links_ok st'" "sites_ok ops st' src"
    by blast
  from fin(4) fin(2) have len: "length src = length bc"
    by (simp add: sites_ok_def Let_def)
  have lk: "matched ops (src ! a) (src ! b) \<longleftrightarrow> jump_ref (bc ! a) = b \<and> jump_ref (bc ! b) = a"
    if "a < length bc" "b < length bc" "op (bc ! a) = JUMP_FWD" "op (bc ! b) = JUMP_BACK" for a b
    using sites_ok_linked [OF fin(3,4), of a b] that fin(2) by simp
  have fw: "ops ! (src ! a) = CHR ''[''" if "a < length bc" "op (bc ! a) = JUMP_FWD" for a
    using fin(4) that fin(2) by (simp add: sites_ok_def Let_def)
  have bw: "ops ! (src ! b) = CHR '']''" if "b < length bc" "op (bc ! b) = JUMP_BACK" for b
    using fin(4) that fin(2) by (simp add: sites_ok_def Let_def)
  have "sites ops = Some (Inr src)"
    using fin(1) False by (simp add: sites_def)
  with len lk fw bw show ?thesis
    by (intro exI [of _ src] conjI allI impI) simp_all
qed

theorem compiled_jumps_mutually_linked_witness:
  "compile ''[[.]]'' =
     Some (Inr [\<lparr>op = JUMP_FWD, jump_ref = 4, value = 0\<rparr>,
                \<lparr>op = JUMP_FWD, jump_ref = 3, value = 0\<rparr>,
                \<lparr>op = OUTPUT, jump_ref = 0, value = 0\<rparr>,
                \<lparr>op = JUMP_BACK, jump_ref = 1, value = 0\<rparr>,
                \<lparr>op = JUMP_BACK, jump_ref = 0, value = 0\<rparr>]) \<and>
   sites ''[[.]]'' = Some (Inr [0, 1, 2, 3, 4]) \<and>
   matched ''[[.]]'' 0 4 \<and> matched ''[[.]]'' 1 3 \<and> \<not> matched ''[[.]]'' 0 3 \<and>
   (\<exists>bc. compile ''[[.]]'' = Some (Inr bc) \<and>
      jump_ref (bc ! 0) = 4 \<and> jump_ref (bc ! 4) = 0 \<and>
      jump_ref (bc ! 1) = 3 \<and> jump_ref (bc ! 3) = 1)"
proof -
  let ?bc = "[\<lparr>op = JUMP_FWD, jump_ref = 4, value = 0\<rparr>,
              \<lparr>op = JUMP_FWD, jump_ref = 3, value = 0\<rparr>,
              \<lparr>op = OUTPUT, jump_ref = 0, value = 0\<rparr>,
              \<lparr>op = JUMP_BACK, jump_ref = 1, value = 0\<rparr>,
              \<lparr>op = JUMP_BACK, jump_ref = 0, value = 0\<rparr>]"
  have c: "compile ''[[.]]'' = Some (Inr ?bc)"
    by code_simp
  have s: "sites ''[[.]]'' = Some (Inr [0, 1, 2, 3, 4])"
    by code_simp
  have m: "matched ''[[.]]'' 0 4" "matched ''[[.]]'' 1 3" "\<not> matched ''[[.]]'' 0 3"
    by (simp_all add: matched_def between_def)
  from compiled_jumps_mutually_linked [OF c] obtain src
    where src: "sites ''[[.]]'' = Some (Inr src)"
      and lk: "\<forall>a < length ?bc. \<forall>b < length ?bc.
          op (?bc ! a) = JUMP_FWD \<and> op (?bc ! b) = JUMP_BACK \<longrightarrow>
            (matched ''[[.]]'' (src ! a) (src ! b) \<longleftrightarrow>
               jump_ref (?bc ! a) = b \<and> jump_ref (?bc ! b) = a)"
    by blast
  from src s have e: "src = [0, 1, 2, 3, 4]"
    by simp
  have in04: "(0 :: nat) < length ?bc" "(4 :: nat) < length ?bc"
    and in13: "(1 :: nat) < length ?bc" "(3 :: nat) < length ?bc"
    by simp_all
  from lk in04 have "op (?bc ! 0) = JUMP_FWD \<and> op (?bc ! 4) = JUMP_BACK \<longrightarrow>
      (matched ''[[.]]'' (src ! 0) (src ! 4) \<longleftrightarrow>
         jump_ref (?bc ! 0) = 4 \<and> jump_ref (?bc ! 4) = 0)"
    by blast
  with e m(1) have l04: "jump_ref (?bc ! 0) = 4 \<and> jump_ref (?bc ! 4) = 0"
    by simp
  from lk in13 have "op (?bc ! 1) = JUMP_FWD \<and> op (?bc ! 3) = JUMP_BACK \<longrightarrow>
      (matched ''[[.]]'' (src ! 1) (src ! 3) \<longleftrightarrow>
         jump_ref (?bc ! 1) = 3 \<and> jump_ref (?bc ! 3) = 1)"
    by blast
  with e m(2) have l13: "jump_ref (?bc ! 1) = 3 \<and> jump_ref (?bc ! 3) = 1"
    by simp
  from c l04 l13 have "\<exists>bc. compile ''[[.]]'' = Some (Inr bc) \<and>
      jump_ref (bc ! 0) = 4 \<and> jump_ref (bc ! 4) = 0 \<and>
      jump_ref (bc ! 1) = 3 \<and> jump_ref (bc ! 3) = 1"
    by (intro exI [of _ ?bc] conjI) simp_all
  with c s m show ?thesis
    by (intro conjI)
qed

end
